theory Spec2Isabelle
  imports Main
begin

section \<open>Python strings\<close>

text \<open>
  A Python \<open>str\<close> is a sequence of Unicode code points; a code point is modelled as a
  natural number and a string as a list of them. \<open>str\<close> turns an ASCII literal into
  such a list.
\<close>

type_synonym codepoint = nat
type_synonym pystr = "codepoint list"

definition str :: "string \<Rightarrow> pystr" where
  "str s = map of_char s"

text \<open>
  \<open>str.isspace\<close> of one code point: the code points CPython's
  \<open>_PyUnicode_IsWhitespace\<close> accepts.
\<close>

definition isspace :: "codepoint \<Rightarrow> bool" where
  "isspace c \<longleftrightarrow>
     (9 \<le> c \<and> c \<le> 13) \<or> (28 \<le> c \<and> c \<le> 32) \<or> c = 133 \<or> c = 160 \<or> c = 5760 \<or>
     (8192 \<le> c \<and> c \<le> 8202) \<or> c = 8232 \<or> c = 8233 \<or> c = 8239 \<or> c = 8287 \<or>
     c = 12288"

text \<open>\<open>s.strip()\<close>: leading and trailing whitespace removed.\<close>

definition lstrip :: "pystr \<Rightarrow> pystr" where
  "lstrip s = dropWhile isspace s"

definition rstrip :: "pystr \<Rightarrow> pystr" where
  "rstrip s = rev (dropWhile isspace (rev s))"

definition strip :: "pystr \<Rightarrow> pystr" where
  "strip s = rstrip (lstrip s)"

text \<open>
  \<open>s.split(" ", 1)\<close>: the string cut at its first space character (U+0020), or the
  string alone when it has none.
\<close>

definition split_space1 :: "pystr \<Rightarrow> pystr list" where
  "split_space1 s =
     (if 32 \<in> set s
      then [takeWhile (\<lambda>c. c \<noteq> 32) s, tl (dropWhile (\<lambda>c. c \<noteq> 32) s)]
      else [s])"

text \<open>
  The decimal value of a code point (\<open>Py_UNICODE_TODECIMAL\<close>), which decides both what
  the regular expression class \<open>\d\<close> matches and what \<open>int\<close> reads. ASCII is written
  out; for the other code points the Unicode database of the interpreter is a
  parameter \<open>tbl\<close>, \<open>None\<close> where the code point is no decimal digit.
\<close>

type_synonym decimal_table = "codepoint \<Rightarrow> nat option"

definition to_decimal :: "decimal_table \<Rightarrow> codepoint \<Rightarrow> nat option" where
  "to_decimal tbl c =
     (if 48 \<le> c \<and> c \<le> 57 then Some (c - 48)
      else if c < 128 then None
      else tbl c)"

definition is_decimal :: "decimal_table \<Rightarrow> codepoint \<Rightarrow> bool" where
  "is_decimal tbl c \<longleftrightarrow> to_decimal tbl c \<noteq> None"

definition in_range :: "codepoint \<Rightarrow> codepoint \<Rightarrow> codepoint \<Rightarrow> bool" where
  "in_range lo hi c \<longleftrightarrow> lo \<le> c \<and> c \<le> hi"

text \<open>\<open>int(s)\<close> on a string of decimal digits; anything else is a \<open>ValueError\<close> (\<open>None\<close>).\<close>

fun int_acc :: "decimal_table \<Rightarrow> nat \<Rightarrow> pystr \<Rightarrow> nat option" where
  "int_acc tbl acc [] = Some acc"
| "int_acc tbl acc (c # cs) =
     (case to_decimal tbl c of
        None \<Rightarrow> None
      | Some d \<Rightarrow> int_acc tbl (10 * acc + d) cs)"

definition py_int :: "decimal_table \<Rightarrow> pystr \<Rightarrow> nat option" where
  "py_int tbl s = (if s = [] then None else int_acc tbl 0 s)"

section \<open>\<open>datetime.strptime\<close> for the two formats of the projector\<close>

text \<open>
  \<open>strptime\<close> compiles the format into a regular expression and matches it at the start
  of the input with a backtracking matcher. A matcher is modelled by the list of its
  matches in the order the backtracking tries them, each the matched text and the
  rest of the input. The directives of the two formats are
  \<^verbatim>\<open>%H = (2[0-3]|[0-1]\d|\d)\<close>, \<^verbatim>\<open>%M = ([0-5]\d|\d)\<close> and
  \<^verbatim>\<open>%S = (6[0-1]|[0-5]\d|\d)\<close>.
\<close>

type_synonym matcher = "pystr \<Rightarrow> (pystr \<times> pystr) list"

definition two :: "(codepoint \<Rightarrow> bool) \<Rightarrow> (codepoint \<Rightarrow> bool) \<Rightarrow> matcher" where
  "two p q s =
     (case s of
        a # b # r \<Rightarrow> if p a \<and> q b then [([a, b], r)] else []
      | _ \<Rightarrow> [])"

definition one :: "(codepoint \<Rightarrow> bool) \<Rightarrow> matcher" where
  "one p s =
     (case s of
        a # r \<Rightarrow> if p a then [([a], r)] else []
      | _ \<Rightarrow> [])"

definition rx_H :: "decimal_table \<Rightarrow> matcher" where
  "rx_H tbl s =
     two (\<lambda>c. c = 50) (in_range 48 51) s @
     two (in_range 48 49) (is_decimal tbl) s @
     one (is_decimal tbl) s"

definition rx_M :: "decimal_table \<Rightarrow> matcher" where
  "rx_M tbl s =
     two (in_range 48 53) (is_decimal tbl) s @
     one (is_decimal tbl) s"

definition rx_S :: "decimal_table \<Rightarrow> matcher" where
  "rx_S tbl s =
     two (\<lambda>c. c = 54) (in_range 48 49) s @
     two (in_range 48 53) (is_decimal tbl) s @
     one (is_decimal tbl) s"

text \<open>The literal \<open>:\<close> of the formats.\<close>

definition colon :: "pystr \<Rightarrow> pystr list" where
  "colon s = (case s of a # r \<Rightarrow> if a = 58 then [r] else [] | _ \<Rightarrow> [])"

text \<open>A group followed by the literal \<open>:\<close>.\<close>

definition then_colon :: "matcher \<Rightarrow> matcher" where
  "then_colon p s = [(x, r2). (x, r1) \<leftarrow> p s, r2 \<leftarrow> colon r1]"

text \<open>
  All matches of \<^verbatim>\<open>%H:%M:%S\<close> and of \<^verbatim>\<open>%H:%M\<close> at the start of the input, in
  backtracking order: the groups and the unmatched rest. \<open>re.match\<close> returns the first.
\<close>

definition match_HMS :: "decimal_table \<Rightarrow> pystr \<Rightarrow> (pystr \<times> pystr \<times> pystr \<times> pystr) list" where
  "match_HMS tbl s =
     [(h, m, sec, r3).
        (h, r1) \<leftarrow> then_colon (rx_H tbl) s,
        (m, r2) \<leftarrow> then_colon (rx_M tbl) r1,
        (sec, r3) \<leftarrow> rx_S tbl r2]"

definition match_HM :: "decimal_table \<Rightarrow> pystr \<Rightarrow> (pystr \<times> pystr \<times> pystr) list" where
  "match_HM tbl s =
     [(h, m, r2).
        (h, r1) \<leftarrow> then_colon (rx_H tbl) s,
        (m, r2) \<leftarrow> rx_M tbl r1]"

datatype error = ValueError

record time =
  hour :: nat
  minute :: nat
  second :: nat

text \<open>
  The constructor of \<open>datetime\<close> refuses a field out of range with a \<open>ValueError\<close>
  (the regular expression admits the seconds 60 and 61).
\<close>

definition mk_time :: "nat \<Rightarrow> nat \<Rightarrow> nat \<Rightarrow> error + time" where
  "mk_time h m s =
     (if h < 24 \<and> m < 60 \<and> s < 60
      then Inr \<lparr>hour = h, minute = m, second = s\<rparr>
      else Inl ValueError)"

text \<open>
  \<^verbatim>\<open>datetime.strptime(s, "%H:%M:%S").time()\<close>: no match, input left over after the
  match, and a field out of range are each a \<open>ValueError\<close>.
\<close>

definition strptime_HMS :: "decimal_table \<Rightarrow> pystr \<Rightarrow> error + time" where
  "strptime_HMS tbl s =
     (case match_HMS tbl s of
        [] \<Rightarrow> Inl ValueError
      | (h, m, sec, rest) # _ \<Rightarrow>
          if rest \<noteq> [] then Inl ValueError
          else (case (py_int tbl h, py_int tbl m, py_int tbl sec) of
                  (Some hh, Some mm, Some ss) \<Rightarrow> mk_time hh mm ss
                | _ \<Rightarrow> Inl ValueError))"

text \<open>\<^verbatim>\<open>datetime.strptime(s, "%H:%M").time()\<close>; the seconds default to 0.\<close>

definition strptime_HM :: "decimal_table \<Rightarrow> pystr \<Rightarrow> error + time" where
  "strptime_HM tbl s =
     (case match_HM tbl s of
        [] \<Rightarrow> Inl ValueError
      | (h, m, rest) # _ \<Rightarrow>
          if rest \<noteq> [] then Inl ValueError
          else (case (py_int tbl h, py_int tbl m) of
                  (Some hh, Some mm) \<Rightarrow> mk_time hh mm 0
                | _ \<Rightarrow> Inl ValueError))"

text \<open>\<open>strftime\<close>: each field as two ASCII digits.\<close>

definition pad2 :: "nat \<Rightarrow> pystr" where
  "pad2 n = [48 + n div 10, 48 + n mod 10]"

definition strftime_HMS :: "time \<Rightarrow> pystr" where
  "strftime_HMS t = pad2 (hour t) @ [58] @ pad2 (minute t) @ [58] @ pad2 (second t)"

definition strftime_HM :: "time \<Rightarrow> pystr" where
  "strftime_HM t = pad2 (hour t) @ [58] @ pad2 (minute t)"

section \<open>The template projector\<close>

text \<open>
  \<open>time_part ts\<close> is the \<open>_t\<close> of \<open>replace_date_part\<close>: what follows the first space
  of the stripped template, or all of it when it has no space.
\<close>

definition time_part :: "pystr \<Rightarrow> pystr" where
  "time_part ts =
     (let ts1 = strip ts in
      if 32 \<in> set ts1 then split_space1 ts1 ! 1 else ts1)"

definition replace_date_part :: "decimal_table \<Rightarrow> pystr \<Rightarrow> pystr \<Rightarrow> error + pystr" where
  "replace_date_part tbl ts to_date =
     (let t = time_part ts in
      case strptime_HMS tbl (strip t) of
        Inr t_obj \<Rightarrow> Inr (to_date @ [32] @ strftime_HMS t_obj)
      | Inl ValueError \<Rightarrow>
          (case strptime_HM tbl (strip t) of
             Inr t_obj \<Rightarrow> Inr (to_date @ [32] @ strftime_HM t_obj)
           | Inl e \<Rightarrow> Inl e))"

section \<open>The \<open>must_review\<close> flag\<close>

text \<open>
  \<open>s.lower()\<close>: CPython lower-cases a string of ASCII code points by its ASCII table;
  any other string goes through the case mappings of the Unicode database, which is
  the parameter \<open>ulower\<close>.
\<close>

definition ascii_lower :: "codepoint \<Rightarrow> codepoint" where
  "ascii_lower c = (if 65 \<le> c \<and> c \<le> 90 then c + 32 else c)"

definition lower :: "(pystr \<Rightarrow> pystr) \<Rightarrow> pystr \<Rightarrow> pystr" where
  "lower ulower s = (if list_all (\<lambda>c. c < 128) s then map ascii_lower s else ulower s)"

text \<open>The five accepted spellings; the first is the ideograph U+662F.\<close>

definition truthy :: "pystr list" where
  "truthy = [[26159], str ''true'', str ''1'', str ''y'', str ''yes'']"

definition mr_truth :: "(pystr \<Rightarrow> pystr) \<Rightarrow> pystr \<Rightarrow> bool" where
  "mr_truth ulower v \<longleftrightarrow> lower ulower (strip v) \<in> set truthy"

section \<open>The listener registry and the broadcaster\<close>

text \<open>
  A \<open>queue.Queue\<close>: its capacity (\<open>maxsize\<close>, unbounded when not positive) and the
  pending events, oldest first.
\<close>

record 'e queue =
  maxsize :: int
  items :: "'e list"

definition Queue :: "int \<Rightarrow> 'e queue" where
  "Queue n = \<lparr>maxsize = n, items = []\<rparr>"

definition full :: "'e queue \<Rightarrow> bool" where
  "full q \<longleftrightarrow> 0 < maxsize q \<and> maxsize q \<le> int (length (items q))"

datatype queue_error = Full

definition put_nowait :: "'e queue \<Rightarrow> 'e \<Rightarrow> queue_error + 'e queue" where
  "put_nowait q ev = (if full q then Inl Full else Inr (q\<lparr>items := items q @ [ev]\<rparr>))"

text \<open>\<open>q.get()\<close> takes the oldest event; on an empty queue it blocks (\<open>None\<close>).\<close>

definition get :: "'e queue \<Rightarrow> ('e \<times> 'e queue) option" where
  "get q = (case items q of [] \<Rightarrow> None | ev # evs \<Rightarrow> Some (ev, q\<lparr>items := evs\<rparr>))"

text \<open>
  Where the generator \<open>gen()\<close> of a stream stands: created and not yet run; suspended
  at the \<open>yield\<close> of the comment line that opens the stream; running and blocked in
  \<open>q.get()\<close>; suspended at the \<open>yield\<close> of an event; ended.
\<close>

datatype phase = Created | Opening | Waiting | Yielded | Done

text \<open>
  The state of the process: the queue objects by identity (\<open>heap\<close>, with \<open>next_id\<close>
  the identity of the next object created), the global set \<open>listeners\<close> of registered
  queues, kept as a list without repetition, and for the stream of each queue the
  \<open>phase\<close> of its generator and the events that it has yielded so far (\<open>wire\<close>).
\<close>

type_synonym handle = nat

record 'e state =
  listeners :: "handle list"
  heap :: "handle \<Rightarrow> 'e queue"
  next_id :: handle
  wire :: "handle \<Rightarrow> 'e list"
  phase :: "handle \<Rightarrow> phase"

definition init :: "'e state" where
  "init = \<lparr>listeners = [], heap = (\<lambda>_. Queue 0), next_id = 0, wire = (\<lambda>_. []),
            phase = (\<lambda>_. Done)\<rparr>"

definition add :: "handle \<Rightarrow> handle list \<Rightarrow> handle list" where
  "add q ls = (if q \<in> set ls then ls else ls @ [q])"

definition discard :: "handle \<Rightarrow> handle list \<Rightarrow> handle list" where
  "discard q ls = removeAll q ls"

text \<open>
  The first loop of \<open>broadcast\<close>, over the copy \<open>list(listeners)\<close>: every exception of
  \<open>put_nowait\<close> puts the queue on the list \<open>dead\<close>.
\<close>

fun deliver :: "'e \<Rightarrow> handle list \<Rightarrow> (handle \<Rightarrow> 'e queue) \<Rightarrow> handle list \<Rightarrow>
    (handle \<Rightarrow> 'e queue) \<times> handle list" where
  "deliver ev [] h dead = (h, dead)"
| "deliver ev (q # qs) h dead =
     (case put_nowait (h q) ev of
        Inr q' \<Rightarrow> deliver ev qs (h(q := q')) dead
      | Inl _ \<Rightarrow> deliver ev qs h (dead @ [q]))"

definition broadcast :: "'e state \<Rightarrow> 'e \<Rightarrow> 'e state" where
  "broadcast st ev =
     (case deliver ev (listeners st) (heap st) [] of
        (h, dead) \<Rightarrow> st\<lparr>listeners := fold discard dead (listeners st), heap := h\<rparr>)"

text \<open>
  \<open>sse_stream\<close> up to the creation of the generator: a new queue of capacity 1000 is
  registered, and the generator \<open>gen()\<close> is created but has not run yet. The result
  is the new queue's handle and the state.
\<close>

definition sse_stream :: "'e state \<Rightarrow> handle \<times> 'e state" where
  "sse_stream st =
     (let q = next_id st in
      (q, st\<lparr>listeners := add q (listeners st),
             heap := (heap st)(q := Queue 1000),
             next_id := Suc q,
             phase := (phase st)(q := Created)\<rparr>))"

text \<open>
  The generator of the stream of queue \<open>q\<close> is resumed (\<open>next\<close>). Resumed for the
  first time it runs to the \<open>yield\<close> of the comment line, before the \<open>try\<close>. Resumed
  again it is in the loop: \<open>q.get()\<close> takes the oldest event, which is yielded; on an
  empty queue \<open>q.get()\<close> blocks, and the generator stays running inside the \<open>try\<close>
  until an event arrives. A generator that has ended stays ended.
\<close>

definition gen_next :: "handle \<Rightarrow> 'e state \<Rightarrow> 'e state" where
  "gen_next q st =
     (case phase st q of
        Created \<Rightarrow> st\<lparr>phase := (phase st)(q := Opening)\<rparr>
      | Done \<Rightarrow> st
      | _ \<Rightarrow>
          (case get (heap st q) of
             None \<Rightarrow> st\<lparr>phase := (phase st)(q := Waiting)\<rparr>
           | Some (ev, q') \<Rightarrow>
               st\<lparr>heap := (heap st)(q := q'),
                  wire := (wire st)(q := wire st q @ [ev]),
                  phase := (phase st)(q := Yielded)\<rparr>))"

text \<open>
  The generator of the stream of queue \<open>q\<close> is closed (\<open>close\<close>, which raises
  \<open>GeneratorExit\<close> at the \<open>yield\<close> where it is suspended). Suspended at the \<open>yield\<close> of
  an event it is inside the \<open>try\<close>: the \<open>finally\<close> block runs and removes \<open>q\<close> from
  \<open>listeners\<close>. Not started, or suspended at the \<open>yield\<close> of the comment line, it is
  outside the \<open>try\<close>: it ends and the \<open>finally\<close> block does not run. While it is
  running, blocked in \<open>q.get()\<close>, it cannot be closed.
\<close>

definition gen_close :: "handle \<Rightarrow> 'e state \<Rightarrow> 'e state" where
  "gen_close q st =
     (case phase st q of
        Yielded \<Rightarrow> st\<lparr>listeners := discard q (listeners st), phase := (phase st)(q := Done)\<rparr>
      | Created \<Rightarrow> st\<lparr>phase := (phase st)(q := Done)\<rparr>
      | Opening \<Rightarrow> st\<lparr>phase := (phase st)(q := Done)\<rparr>
      | Waiting \<Rightarrow> st
      | Done \<Rightarrow> st)"

text \<open>
  What happens in the process, one action after the other: an event is published, a
  stream is opened, the generator of a stream is resumed, the generator of a stream
  is closed.
\<close>

datatype 'e action = Publish 'e | Open | Next handle | Close handle

fun step :: "'e state \<Rightarrow> 'e action \<Rightarrow> 'e state" where
  "step st (Publish ev) = broadcast st ev"
| "step st Open = snd (sse_stream st)"
| "step st (Next q) = gen_next q st"
| "step st (Close q) = gen_close q st"

definition run :: "'e state \<Rightarrow> 'e action list \<Rightarrow> 'e state" where
  "run st acts = foldl step st acts"

text \<open>The events published by a sequence of actions, in order.\<close>

fun published :: "'e action list \<Rightarrow> 'e list" where
  "published [] = []"
| "published (Publish ev # acts) = ev # published acts"
| "published (Open # acts) = published acts"
| "published (Next q # acts) = published acts"
| "published (Close q # acts) = published acts"

section \<open>The per-date status read\<close>

text \<open>
  The two tables. \<open>task_state\<close> has the primary key \<open>(date, task_id)\<close>, so it is a map
  from that key to the two integer flags.
\<close>

record task =
  t_id :: int
  t_name :: pystr
  t_start :: pystr
  t_end :: pystr
  t_predecessor :: "pystr option"
  t_must_review :: pystr

record database =
  tasks :: "task list"
  task_state :: "pystr \<times> int \<Rightarrow> (int \<times> int) option"

definition coalesce :: "int option \<Rightarrow> int \<Rightarrow> int" where
  "coalesce v d = (case v of None \<Rightarrow> d | Some x \<Rightarrow> x)"

text \<open>
  The query of \<open>api_state_get\<close>: each task, in the order of its id, with the flags of
  its row for the date, \<open>NULL\<close> where the left join finds no row.
\<close>

definition select_state :: "database \<Rightarrow> pystr \<Rightarrow> (int \<times> pystr \<times> pystr \<times> int \<times> int) list" where
  "select_state db date =
     map (\<lambda>t. let s = task_state db (date, t_id t) in
               (t_id t, t_name t, t_must_review t,
                coalesce (map_option fst s) 0, coalesce (map_option snd s) 0))
         (sort_key t_id (tasks db))"

record item =
  item_id :: int
  item_name :: pystr
  mustReview :: pystr
  completed :: bool
  reviewed :: bool

record stats =
  total :: nat
  doneReviewed :: nat
  doneUnreviewed :: nat
  undone :: nat
  mustReviewUndone :: nat

record response =
  r_date :: pystr
  r_list :: "item list"
  r_stats :: stats

text \<open>\<^verbatim>\<open>request.args.get("date") or today_str()\<close>\<close>

definition req_date :: "pystr option \<Rightarrow> pystr \<Rightarrow> pystr" where
  "req_date arg today = (case arg of None \<Rightarrow> today | Some d \<Rightarrow> if d = [] then today else d)"

definition mk_list :: "(int \<times> pystr \<times> pystr \<times> int \<times> int) list \<Rightarrow> item list" where
  "mk_list rows =
     map (\<lambda>(tid, name, mr, comp, rev).
            \<lparr>item_id = tid, item_name = name, mustReview = mr,
             completed = (comp \<noteq> 0), reviewed = (rev \<noteq> 0)\<rparr>) rows"

definition mk_stats :: "(pystr \<Rightarrow> pystr) \<Rightarrow> item list \<Rightarrow> stats" where
  "mk_stats ulower lst =
     \<lparr>total = length lst,
      doneReviewed = sum_list [1. x \<leftarrow> lst, completed x \<and> reviewed x],
      doneUnreviewed = sum_list [1. x \<leftarrow> lst, completed x \<and> \<not> reviewed x],
      undone = sum_list [1. x \<leftarrow> lst, \<not> completed x],
      mustReviewUndone =
        sum_list [1. x \<leftarrow> lst, mr_truth ulower (mustReview x) \<and> \<not> completed x \<and> \<not> reviewed x]\<rparr>"

definition api_state_get :: "(pystr \<Rightarrow> pystr) \<Rightarrow> pystr \<Rightarrow> database \<Rightarrow> pystr option \<Rightarrow> response" where
  "api_state_get ulower today db arg =
     (let date = req_date arg today;
          lst = mk_list (select_state db date)
      in \<lparr>r_date = date, r_list = lst, r_stats = mk_stats ulower lst\<rparr>)"

section \<open>The timetable of a date\<close>

text \<open>
  A task as \<open>api_tasks\<close> returns it. The predecessors are a JSON value; the type of
  JSON values is a parameter \<open>'j\<close>, and so are \<open>json.loads\<close> (\<open>loads\<close>, an error for a
  string that is no JSON) and the empty JSON list (\<open>nil\<close>).
\<close>

record 'j out_task =
  o_id :: int
  o_name :: pystr
  o_start :: pystr
  o_end :: pystr
  o_predecessor :: 'j
  o_must_review :: pystr

definition load_pred :: "(pystr \<Rightarrow> 'x + 'j) \<Rightarrow> 'j \<Rightarrow> pystr option \<Rightarrow> 'j" where
  "load_pred loads nil predecessor =
     (case predecessor of
        None \<Rightarrow> nil
      | Some p \<Rightarrow> if p = [] then nil else (case loads p of Inr v \<Rightarrow> v | Inl _ \<Rightarrow> nil))"

text \<open>
  The loop of \<open>api_tasks\<close> over the rows, with the list \<open>out\<close> built so far. Nothing
  catches the \<open>ValueError\<close> of \<open>replace_date_part\<close>: it ends the loop and the request.
\<close>

fun project_rows :: "decimal_table \<Rightarrow> (pystr \<Rightarrow> 'x + 'j) \<Rightarrow> 'j \<Rightarrow> pystr \<Rightarrow>
    'j out_task list \<Rightarrow> task list \<Rightarrow> error + 'j out_task list" where
  "project_rows tbl loads nil date out [] = Inr out"
| "project_rows tbl loads nil date out (t # rows) =
     (case replace_date_part tbl (t_start t) date of
        Inl e \<Rightarrow> Inl e
      | Inr start2 \<Rightarrow>
          (case replace_date_part tbl (t_end t) date of
             Inl e \<Rightarrow> Inl e
           | Inr end2 \<Rightarrow>
               project_rows tbl loads nil date
                 (out @ [\<lparr>o_id = t_id t, o_name = t_name t, o_start = start2, o_end = end2,
                           o_predecessor = load_pred loads nil (t_predecessor t),
                           o_must_review = t_must_review t\<rparr>])
                 rows))"

definition api_tasks :: "decimal_table \<Rightarrow> (pystr \<Rightarrow> 'x + 'j) \<Rightarrow> 'j \<Rightarrow> pystr \<Rightarrow> database \<Rightarrow>
    pystr option \<Rightarrow> error + 'j out_task list" where
  "api_tasks tbl loads nil today db arg =
     project_rows tbl loads nil (req_date arg today) [] (sort_key t_id (tasks db))"

section \<open>Posting a status change\<close>

text \<open>
  The event that \<open>api_state_post\<close> publishes, and the JSON body of the request, with
  the task id an integer and the two flags by their truth value.
\<close>

record change =
  c_task_id :: int
  c_completed :: int
  c_reviewed :: int

record event =
  ev_date :: pystr
  ev_changes :: "change list"
  seq :: int

record post_body =
  b_date :: "pystr option"
  b_task_id :: "int option"
  b_completed :: bool
  b_reviewed :: bool

datatype post_result = Ok | NeedTaskId | TaskNotExists int

text \<open>
  \<open>api_state_post\<close> up to the call of \<open>broadcast\<close>: the checks, the write to
  \<open>task_state\<close> and the event, stamped with the clock. \<open>clock\<close> is what
  \<^verbatim>\<open>int(time.time()*1000)\<close> gives at that moment, and \<open>today_of\<close> turns a reading
  of the clock into the date of \<open>today_str()\<close>. The result is the response when the
  request ends here, the table, and the event to publish.
\<close>

definition post_write :: "(int \<Rightarrow> pystr) \<Rightarrow> int \<Rightarrow> database \<Rightarrow> post_body \<Rightarrow>
    post_result \<times> database \<times> event option" where
  "post_write today_of clock db data =
     (let date = req_date (b_date data) (today_of clock) in
      case b_task_id data of
        None \<Rightarrow> (NeedTaskId, db, None)
      | Some task_id \<Rightarrow>
          if task_id = 0 then (NeedTaskId, db, None)
          else if task_id \<notin> set (map t_id (tasks db)) then (TaskNotExists task_id, db, None)
          else
            (let completed = (if b_completed data then 1 else 0);
                 reviewed = (if b_reviewed data then 1 else 0)
             in (Ok,
                 db\<lparr>task_state := (task_state db)((date, task_id) \<mapsto> (completed, reviewed))\<rparr>,
                 Some \<lparr>ev_date = date,
                       ev_changes = [\<lparr>c_task_id = task_id, c_completed = completed,
                                      c_reviewed = reviewed\<rparr>],
                       seq = clock\<rparr>)))"

text \<open>
  The server runs each request in a thread of its own (\<open>threaded=True\<close>). The state
  of the process with its requests: the streams, the tables, the clock, and for each
  request thread the event it has built and not yet published.
\<close>

record process =
  streams :: "event state"
  store :: database
  clock :: int
  built :: "nat \<Rightarrow> event option"

text \<open>
  A request thread runs \<open>api_state_post\<close> in two steps, between which other threads
  may run: \<open>Read r data\<close> is the function up to the event, \<open>Bcast r\<close> is the call of
  \<open>broadcast\<close>, which \<open>lst_lock\<close> makes indivisible. \<open>Tick d\<close> moves the clock by \<open>d\<close>
  milliseconds.
\<close>

datatype post_action = Read nat post_body | Bcast nat | Tick int

fun post_step :: "(int \<Rightarrow> pystr) \<Rightarrow> process \<Rightarrow> post_action \<Rightarrow> process" where
  "post_step today_of p (Read r data) =
     (case post_write today_of (clock p) (store p) data of
        (res, db, ev) \<Rightarrow> p\<lparr>store := db, built := (built p)(r := ev)\<rparr>)"
| "post_step today_of p (Bcast r) =
     (case built p r of
        None \<Rightarrow> p
      | Some ev \<Rightarrow> p\<lparr>streams := broadcast (streams p) ev, built := (built p)(r := None)\<rparr>)"
| "post_step today_of p (Tick d) = p\<lparr>clock := clock p + d\<rparr>"

definition run_posts :: "(int \<Rightarrow> pystr) \<Rightarrow> process \<Rightarrow> post_action list \<Rightarrow> process" where
  "run_posts today_of p acts = foldl (post_step today_of) p acts"

text \<open>
  The requests are handled one after the other, and the clock does not go back: every
  \<open>Read\<close> is followed at once by the \<open>Bcast\<close> of the same thread, and no \<open>Tick\<close> is
  negative.
\<close>

fun sequential :: "post_action list \<Rightarrow> bool" where
  "sequential [] = True"
| "sequential (Tick d # acts) = (0 \<le> d \<and> sequential acts)"
| "sequential (Read r data # Bcast r' # acts) = (r = r' \<and> sequential acts)"
| "sequential (Read r data # acts) = False"
| "sequential (Bcast r # acts) = False"

section \<open>Threads and the lock of the registry\<close>

text \<open>
  Where a thread stands in a call that takes \<open>lst_lock\<close>. A call of \<open>broadcast\<close>: before
  the \<open>with\<close> block; in the first loop, with the rest of the copy of \<open>listeners\<close> and
  the list \<open>dead\<close>; in the second loop, with the rest of \<open>dead\<close>. The registration of
  \<open>sse_stream\<close> and the \<open>finally\<close> block of \<open>gen\<close>: before the \<open>with\<close> block and inside
  it. \<open>Idle\<close> is a thread in no such call.
\<close>

datatype 'e thread =
    Idle
  | BcastEnter 'e
  | BcastLoop 'e "handle list" "handle list"
  | BcastDiscard "handle list"
  | RegEnter handle
  | RegLocked handle
  | DeregEnter handle
  | DeregLocked handle

text \<open>The shared state, the thread that holds \<open>lst_lock\<close>, and the threads.\<close>

record 'e config =
  shared :: "'e state"
  lock :: "nat option"
  threads :: "'e thread list"

text \<open>
  One step of thread \<open>t\<close>; \<open>None\<close> when the thread cannot move: it waits for the lock,
  it is idle, or there is no such thread. Entering a \<open>with\<close> block takes the lock
  (\<open>broadcast\<close> then sets \<open>dead\<close> to the empty list and copies \<open>listeners\<close>); each turn
  of a loop is a step; leaving the block releases the lock.
\<close>

definition set_thread :: "'e config \<Rightarrow> nat \<Rightarrow> 'e thread \<Rightarrow> 'e config" where
  "set_thread c t th = c\<lparr>threads := (threads c)[t := th]\<rparr>"

definition tstep :: "'e config \<Rightarrow> nat \<Rightarrow> 'e config option" where
  "tstep c t =
     (if length (threads c) \<le> t then None
      else
        (case threads c ! t of
           Idle \<Rightarrow> None
         | BcastEnter ev \<Rightarrow>
             (case lock c of
                Some _ \<Rightarrow> None
              | None \<Rightarrow>
                  Some (set_thread (c\<lparr>lock := Some t\<rparr>) t
                          (BcastLoop ev (listeners (shared c)) [])))
         | BcastLoop ev [] dead \<Rightarrow> Some (set_thread c t (BcastDiscard dead))
         | BcastLoop ev (q # qs) dead \<Rightarrow>
             (case put_nowait (heap (shared c) q) ev of
                Inr q' \<Rightarrow>
                  Some (set_thread
                          (c\<lparr>shared := (shared c)\<lparr>heap := (heap (shared c))(q := q')\<rparr>\<rparr>) t
                          (BcastLoop ev qs dead))
              | Inl _ \<Rightarrow> Some (set_thread c t (BcastLoop ev qs (dead @ [q]))))
         | BcastDiscard [] \<Rightarrow> Some (set_thread (c\<lparr>lock := None\<rparr>) t Idle)
         | BcastDiscard (q # qs) \<Rightarrow>
             Some (set_thread
                     (c\<lparr>shared := (shared c)\<lparr>listeners := discard q (listeners (shared c))\<rparr>\<rparr>) t
                     (BcastDiscard qs))
         | RegEnter q \<Rightarrow>
             (case lock c of
                Some _ \<Rightarrow> None
              | None \<Rightarrow> Some (set_thread (c\<lparr>lock := Some t\<rparr>) t (RegLocked q)))
         | RegLocked q \<Rightarrow>
             Some (set_thread
                     (c\<lparr>shared := (shared c)\<lparr>listeners := add q (listeners (shared c))\<rparr>,
                        lock := None\<rparr>) t Idle)
         | DeregEnter q \<Rightarrow>
             (case lock c of
                Some _ \<Rightarrow> None
              | None \<Rightarrow> Some (set_thread (c\<lparr>lock := Some t\<rparr>) t (DeregLocked q)))
         | DeregLocked q \<Rightarrow>
             Some (set_thread
                     (c\<lparr>shared := (shared c)\<lparr>listeners := discard q (listeners (shared c))\<rparr>,
                        lock := None\<rparr>) t Idle)))"

text \<open>
  A schedule is the list of the threads that move, in order; it cannot be run when
  one of its steps cannot be taken.
\<close>

fun sched :: "'e config \<Rightarrow> nat list \<Rightarrow> 'e config option" where
  "sched c [] = Some c"
| "sched c (t # ts) = (case tstep c t of None \<Rightarrow> None | Some c' \<Rightarrow> sched c' ts)"

text \<open>A thread that is inside a \<open>with lst_lock\<close> block.\<close>

fun inside :: "'e thread \<Rightarrow> bool" where
  "inside (BcastLoop ev qs dead) = True"
| "inside (BcastDiscard qs) = True"
| "inside (RegLocked q) = True"
| "inside (DeregLocked q) = True"
| "inside th = False"

text \<open>A thread that is about to call \<open>put_nowait\<close>.\<close>

fun delivering :: "'e thread \<Rightarrow> bool" where
  "delivering (BcastLoop ev (q # qs) dead) = True"
| "delivering th = False"

text \<open>The start: the lock is free and no thread is inside a \<open>with\<close> block.\<close>

definition start :: "'e config \<Rightarrow> bool" where
  "start c \<longleftrightarrow> lock c = None \<and> list_all (\<lambda>th. \<not> inside th) (threads c)"

section \<open>Auxiliary notions for the statements\<close>

text \<open>
  The invariant of the registry: \<open>listeners\<close> is a set (no handle twice) of queues that
  have been created.
\<close>

definition wf :: "'e state \<Rightarrow> bool" where
  "wf st \<longleftrightarrow> distinct (listeners st) \<and> list_all (\<lambda>q. q < next_id st) (listeners st)"

text \<open>
  The time of day of a template as the specification words it: what follows the first
  whitespace character, or the whole string when it has none. It is not what
  \<open>replace_date_part\<close> computes (\<open>time_part\<close>), and serves only to compare the two.
\<close>

definition spec_time_part :: "pystr \<Rightarrow> pystr" where
  "spec_time_part ts =
     (if dropWhile (\<lambda>c. \<not> isspace c) ts = [] then ts
      else tl (dropWhile (\<lambda>c. \<not> isspace c) ts))"

text \<open>
  The invariant of the lock: the threads inside a \<open>with lst_lock\<close> block are exactly
  the thread that holds the lock.
\<close>

definition owner_only :: "'e config \<Rightarrow> bool" where
  "owner_only c \<longleftrightarrow>
     (\<forall>i < length (threads c). inside (threads c ! i) = (lock c = Some i)) \<and>
     (\<forall>t. lock c = Some t \<longrightarrow> t < length (threads c))"

section \<open>The regular expressions of \<open>strptime\<close>\<close>

lemma to_decimal_ascii [simp]: "d \<le> 9 \<Longrightarrow> to_decimal tbl (48 + d) = Some d"
  by (simp add: to_decimal_def)

lemma to_decimal_colon [simp]: "to_decimal tbl 58 = None"
  by (simp add: to_decimal_def)

lemma is_decimal_colon [simp]: "\<not> is_decimal tbl 58"
  by (simp add: is_decimal_def)

lemma two_sound: "(x, r) \<in> set (two p q s) \<Longrightarrow> s = x @ r \<and> (\<exists>a b. x = [a, b] \<and> p a \<and> q b)"
  by (auto simp: two_def split: list.splits if_splits)

lemma one_sound: "(x, r) \<in> set (one p s) \<Longrightarrow> s = x @ r \<and> (\<exists>a. x = [a] \<and> p a)"
  by (auto simp: one_def split: list.splits if_splits)

lemma rx_H_sound: "(x, r) \<in> set (rx_H tbl s) \<Longrightarrow> s = x @ r \<and> 58 \<notin> set x"
  by (auto simp: rx_H_def in_range_def dest!: two_sound one_sound)

lemma rx_M_sound: "(x, r) \<in> set (rx_M tbl s) \<Longrightarrow> s = x @ r \<and> 58 \<notin> set x"
  by (auto simp: rx_M_def in_range_def dest!: two_sound one_sound)

lemma rx_S_sound: "(x, r) \<in> set (rx_S tbl s) \<Longrightarrow> s = x @ r \<and> 58 \<notin> set x"
  by (auto simp: rx_S_def in_range_def dest!: two_sound one_sound)

lemma colon_sound: "r \<in> set (colon s) \<Longrightarrow> s = 58 # r"
  by (auto simp: colon_def split: list.splits if_splits)

lemma then_colon_H_sound:
  "(x, r) \<in> set (then_colon (rx_H tbl) s) \<Longrightarrow> s = x @ 58 # r \<and> 58 \<notin> set x"
  by (auto simp: then_colon_def dest!: rx_H_sound colon_sound)

lemma then_colon_M_sound:
  "(x, r) \<in> set (then_colon (rx_M tbl) s) \<Longrightarrow> s = x @ 58 # r \<and> 58 \<notin> set x"
  by (auto simp: then_colon_def dest!: rx_M_sound colon_sound)

lemma match_HMS_sound:
  "(h, m, sec, r) \<in> set (match_HMS tbl s) \<Longrightarrow>
     s = h @ 58 # m @ 58 # sec @ r \<and> 58 \<notin> set h \<and> 58 \<notin> set m \<and> 58 \<notin> set sec"
  by (auto simp: match_HMS_def dest!: then_colon_H_sound then_colon_M_sound rx_S_sound)

lemma match_HM_sound:
  "(h, m, r) \<in> set (match_HM tbl s) \<Longrightarrow>
     s = h @ 58 # m @ r \<and> 58 \<notin> set h \<and> 58 \<notin> set m"
  by (auto simp: match_HM_def dest!: then_colon_H_sound rx_M_sound)

lemma count_colon_none: "58 \<notin> set x \<Longrightarrow> count_list x (58::nat) = 0"
  by (induction x) auto

lemma strptime_HM_one_colon:
  assumes "strptime_HM tbl s = Inr t"
  shows "count_list s 58 = 1"
proof -
  from assms obtain h m rest ms where ms: "match_HM tbl s = (h, m, rest) # ms" and "rest = []"
    by (auto simp: strptime_HM_def split: list.splits if_splits)
  then have "(h, m, []) \<in> set (match_HM tbl s)" by simp
  from match_HM_sound [OF this] show ?thesis
    by (simp add: count_colon_none)
qed

lemma match_HMS_two_colons:
  assumes "match_HMS tbl s \<noteq> []"
  shows "2 \<le> count_list s 58"
proof -
  from assms obtain h m sec r where "(h, m, sec, r) \<in> set (match_HMS tbl s)"
    by (cases "match_HMS tbl s") auto
  from match_HMS_sound [OF this] show ?thesis
    by (simp add: count_colon_none)
qed

lemma strptime_exclusive:
  assumes "strptime_HM tbl s = Inr t"
  shows "strptime_HMS tbl s = Inl ValueError"
proof (cases "match_HMS tbl s")
  case Nil
  then show ?thesis by (simp add: strptime_HMS_def)
next
  case (Cons a as)
  then have "2 \<le> count_list s 58" using match_HMS_two_colons [of tbl s] by simp
  with strptime_HM_one_colon [OF assms] show ?thesis by simp
qed

section \<open>Parsing what \<open>strftime\<close> renders\<close>

lemma then_colon_H_pad2:
  assumes "h < 24"
  shows "then_colon (rx_H tbl) (pad2 h @ 58 # r) = [(pad2 h, r)]"
proof -
  define a b where "a = h div 10" and "b = h mod 10"
  have ab: "a \<le> 2" "b \<le> 9" "a = 2 \<Longrightarrow> b \<le> 3" using assms unfolding a_def b_def by presburger+
  have p: "pad2 h = [48 + a, 48 + b]" by (simp add: pad2_def a_def b_def)
  have d: "is_decimal tbl (48 + a)" "is_decimal tbl (48 + b)" using ab by (simp_all add: is_decimal_def)
  show ?thesis unfolding p using ab d
    by (auto simp: then_colon_def rx_H_def two_def one_def colon_def in_range_def)
qed

lemma then_colon_M_pad2:
  assumes "m < 60"
  shows "then_colon (rx_M tbl) (pad2 m @ 58 # r) = [(pad2 m, r)]"
proof -
  define a b where "a = m div 10" and "b = m mod 10"
  have ab: "a \<le> 5" "b \<le> 9" using assms by (auto simp: a_def b_def)
  have p: "pad2 m = [48 + a, 48 + b]" by (simp add: pad2_def a_def b_def)
  have d: "is_decimal tbl (48 + a)" "is_decimal tbl (48 + b)" using ab by (simp_all add: is_decimal_def)
  show ?thesis unfolding p using ab d
    by (auto simp: then_colon_def rx_M_def two_def one_def colon_def in_range_def)
qed

lemma rx_M_pad2:
  assumes "m < 60"
  shows "\<exists>ms. rx_M tbl (pad2 m) = (pad2 m, []) # ms"
proof -
  define a b where "a = m div 10" and "b = m mod 10"
  have ab: "a \<le> 5" "b \<le> 9" using assms by (auto simp: a_def b_def)
  have p: "pad2 m = [48 + a, 48 + b]" by (simp add: pad2_def a_def b_def)
  have d: "is_decimal tbl (48 + a)" "is_decimal tbl (48 + b)" using ab by (simp_all add: is_decimal_def)
  show ?thesis unfolding p using ab d
    by (auto simp: rx_M_def two_def one_def in_range_def)
qed

lemma rx_S_pad2:
  assumes "s < 60"
  shows "\<exists>ms. rx_S tbl (pad2 s) = (pad2 s, []) # ms"
proof -
  define a b where "a = s div 10" and "b = s mod 10"
  have ab: "a \<le> 5" "b \<le> 9" using assms by (auto simp: a_def b_def)
  have p: "pad2 s = [48 + a, 48 + b]" by (simp add: pad2_def a_def b_def)
  have d: "is_decimal tbl (48 + a)" "is_decimal tbl (48 + b)" using ab by (simp_all add: is_decimal_def)
  show ?thesis unfolding p using ab d
    by (auto simp: rx_S_def two_def one_def in_range_def)
qed

lemma py_int_pad2: "n < 100 \<Longrightarrow> py_int tbl (pad2 n) = Some n"
proof -
  assume "n < 100"
  then have "n div 10 \<le> 9" "n mod 10 \<le> 9" by auto
  then show ?thesis by (simp add: py_int_def pad2_def)
qed

lemma strptime_HMS_strftime:
  assumes "hour t < 24" "minute t < 60" "second t < 60"
  shows "strptime_HMS tbl (strftime_HMS t) = Inr t"
proof -
  obtain ms where ms: "rx_S tbl (pad2 (second t)) = (pad2 (second t), []) # ms"
    using rx_S_pad2 [OF assms(3)] by blast
  have "\<exists>xs. match_HMS tbl (strftime_HMS t) = (pad2 (hour t), pad2 (minute t), pad2 (second t), []) # xs"
    by (simp add: match_HMS_def strftime_HMS_def then_colon_H_pad2 [OF assms(1)]
          then_colon_M_pad2 [OF assms(2)] ms)
  then show ?thesis using assms
    by (auto simp: strptime_HMS_def py_int_pad2 mk_time_def)
qed

lemma strptime_HM_strftime:
  assumes "hour t < 24" "minute t < 60"
  shows "strptime_HM tbl (strftime_HM t) = Inr \<lparr>hour = hour t, minute = minute t, second = 0\<rparr>"
proof -
  obtain ms where ms: "rx_M tbl (pad2 (minute t)) = (pad2 (minute t), []) # ms"
    using rx_M_pad2 [OF assms(2)] by blast
  have "\<exists>xs. match_HM tbl (strftime_HM t) = (pad2 (hour t), pad2 (minute t), []) # xs"
    by (simp add: match_HM_def strftime_HM_def then_colon_H_pad2 [OF assms(1)] ms)
  then show ?thesis using assms
    by (auto simp: strptime_HM_def py_int_pad2 mk_time_def)
qed

lemma mk_time_valid: "mk_time h m s = Inr t \<Longrightarrow> hour t < 24 \<and> minute t < 60 \<and> second t < 60 \<and> hour t = h \<and> minute t = m \<and> second t = s"
  by (auto simp: mk_time_def split: if_splits)

lemma strptime_HMS_valid:
  "strptime_HMS tbl s = Inr t \<Longrightarrow> hour t < 24 \<and> minute t < 60 \<and> second t < 60"
  by (auto simp: strptime_HMS_def split: list.splits if_splits option.splits dest: mk_time_valid)

lemma strptime_HM_valid:
  "strptime_HM tbl s = Inr t \<Longrightarrow> hour t < 24 \<and> minute t < 60 \<and> second t = 0"
  by (auto simp: strptime_HM_def split: list.splits if_splits option.splits dest: mk_time_valid)

section \<open>Stripping and splitting a projected timestamp\<close>

lemma isspace_32 [simp]: "isspace 32" by (simp add: isspace_def)

lemma not_isspace_colon [simp]: "\<not> isspace 58" by (simp add: isspace_def)

lemma strip_id:
  assumes "w \<noteq> []" "\<not> isspace (hd w)" "\<not> isspace (last w)"
  shows "strip w = w"
proof -
  have l: "lstrip w = w" using assms by (cases w) (simp_all add: lstrip_def)
  have "dropWhile isspace (rev w) = rev w"
    using assms by (cases "rev w") (simp_all add: last_rev hd_rev)
  then have "rstrip w = w" by (simp add: rstrip_def)
  with l show ?thesis by (simp add: strip_def)
qed

lemma rstrip_append:
  assumes "w \<noteq> []" "\<not> isspace (last w)"
  shows "rstrip (x @ w) = x @ w"
proof -
  have "dropWhile isspace (rev w @ rev x) = rev w @ rev x"
    using assms by (cases "rev w") (simp_all add: last_rev hd_rev)
  then show ?thesis by (simp add: rstrip_def)
qed

lemma dropWhile_to_space:
  "32 \<notin> set x \<Longrightarrow> dropWhile (\<lambda>c. c \<noteq> 32) (x @ 32 # w) = (32::nat) # w"
  by (induction x) auto

lemma time_part_projected:
  assumes "32 \<notin> set d" "w \<noteq> []" "\<not> isspace (hd w)" "\<not> isspace (last w)" "32 \<notin> set w"
  shows "time_part (d @ [32] @ w) = w"
proof (cases "\<forall>c\<in>set d. isspace c")
  case True
  then have "dropWhile isspace (d @ 32 # w) = w"
    using assms by (cases w) (simp_all add: dropWhile_append2)
  then have "lstrip (d @ [32] @ w) = w" by (simp add: lstrip_def)
  moreover have "rstrip w = w" using rstrip_append [of w "[]"] assms by simp
  ultimately have "strip (d @ [32] @ w) = w" by (simp add: strip_def)
  then show ?thesis using assms by (simp add: time_part_def)
next
  case False
  define d' where "d' = dropWhile isspace d"
  from False have "dropWhile isspace (d @ 32 # w) = d' @ 32 # w"
    by (auto simp: d'_def dropWhile_append1)
  then have "lstrip (d @ [32] @ w) = d' @ 32 # w" by (simp add: lstrip_def)
  moreover have "rstrip ((d' @ [32]) @ w) = (d' @ [32]) @ w"
    using assms by (intro rstrip_append) simp_all
  ultimately have s: "strip (d @ [32] @ w) = d' @ 32 # w" by (simp add: strip_def)
  have n: "32 \<notin> set d'" using assms(1) set_dropWhileD [of 32 isspace d] by (auto simp: d'_def)
  then have "dropWhile (\<lambda>c. c \<noteq> 32) (d' @ 32 # w) = 32 # w"
    by (rule dropWhile_to_space)
  then show ?thesis using s by (simp add: time_part_def split_space1_def)
qed

lemma pad2_props:
  assumes "n < 100"
  shows "\<forall>c\<in>set (pad2 n). \<not> isspace c \<and> c \<noteq> 32"
proof -
  have "n div 10 \<le> 9" "n mod 10 \<le> 9" using assms by auto
  then show ?thesis by (auto simp: pad2_def isspace_def)
qed

lemma strftime_HM_clean:
  assumes "hour t < 24" "minute t < 60"
  shows "strftime_HM t \<noteq> [] \<and> \<not> isspace (hd (strftime_HM t)) \<and> \<not> isspace (last (strftime_HM t)) \<and> 32 \<notin> set (strftime_HM t)"
proof -
  have h: "\<forall>c\<in>set (pad2 (hour t)). \<not> isspace c \<and> c \<noteq> 32" using assms by (intro pad2_props) simp
  have m: "\<forall>c\<in>set (pad2 (minute t)). \<not> isspace c \<and> c \<noteq> 32" using assms by (intro pad2_props) simp
  show ?thesis using h m by (auto simp: strftime_HM_def pad2_def)
qed

lemma strftime_HMS_clean:
  assumes "hour t < 24" "minute t < 60" "second t < 60"
  shows "strftime_HMS t \<noteq> [] \<and> \<not> isspace (hd (strftime_HMS t)) \<and> \<not> isspace (last (strftime_HMS t)) \<and> 32 \<notin> set (strftime_HMS t)"
proof -
  have h: "\<forall>c\<in>set (pad2 (hour t)). \<not> isspace c \<and> c \<noteq> 32" using assms by (intro pad2_props) simp
  have m: "\<forall>c\<in>set (pad2 (minute t)). \<not> isspace c \<and> c \<noteq> 32" using assms by (intro pad2_props) simp
  have s: "\<forall>c\<in>set (pad2 (second t)). \<not> isspace c \<and> c \<noteq> 32" using assms by (intro pad2_props) simp
  show ?thesis using h m s by (auto simp: strftime_HMS_def pad2_def)
qed

lemma replace_date_part_HMS:
  "strptime_HMS tbl (strip (time_part ts)) = Inr t \<Longrightarrow>
   replace_date_part tbl ts d = Inr (d @ [32] @ strftime_HMS t)"
  by (simp add: replace_date_part_def)

lemma replace_date_part_HM:
  assumes "strptime_HM tbl (strip (time_part ts)) = Inr t"
  shows "replace_date_part tbl ts d = Inr (d @ [32] @ strftime_HM t)"
proof -
  have "strptime_HMS tbl (strip (time_part ts)) = Inl ValueError"
    using strptime_exclusive [OF assms] .
  then show ?thesis using assms by (simp add: replace_date_part_def)
qed

lemma replace_date_part_cases:
  assumes "replace_date_part tbl ts d = Inr r"
  shows "(\<exists>t. strptime_HMS tbl (strip (time_part ts)) = Inr t \<and> r = d @ [32] @ strftime_HMS t) \<or>
         (\<exists>t. strptime_HMS tbl (strip (time_part ts)) = Inl ValueError \<and>
              strptime_HM tbl (strip (time_part ts)) = Inr t \<and> r = d @ [32] @ strftime_HM t)"
  using assms by (auto simp: replace_date_part_def Let_def split: sum.splits error.splits)

section \<open>One call of \<open>broadcast\<close>\<close>

lemma deliver_char:
  assumes "distinct qs"
  shows "deliver ev qs h dead =
           ((\<lambda>q. if q \<in> set qs \<and> \<not> full (h q) then (h q)\<lparr>items := items (h q) @ [ev]\<rparr> else h q),
            dead @ filter (\<lambda>q. full (h q)) qs)"
  using assms
proof (induction qs arbitrary: h dead)
  case Nil
  then show ?case by simp
next
  case (Cons q qs)
  then have nq: "q \<notin> set qs" and d: "distinct qs" by simp_all
  show ?case
  proof (cases "full (h q)")
    case True
    then show ?thesis using Cons.IH [OF d, of h "dead @ [q]"]
      by (auto simp: put_nowait_def)
  next
    case False
    let ?h = "h(q := (h q)\<lparr>items := items (h q) @ [ev]\<rparr>)"
    have f: "filter (\<lambda>x. full (?h x)) qs = filter (\<lambda>x. full (h x)) qs"
      using nq by (intro filter_cong) auto
    have g: "(\<lambda>x. if x \<in> set qs \<and> \<not> full (?h x)
                  then (?h x)\<lparr>items := items (?h x) @ [ev]\<rparr> else ?h x) =
             (\<lambda>x. if x \<in> set (q # qs) \<and> \<not> full (h x)
                  then (h x)\<lparr>items := items (h x) @ [ev]\<rparr> else h x)"
      using nq False by (auto simp: fun_eq_iff)
    have "deliver ev (q # qs) h dead = deliver ev qs ?h dead"
      using False by (simp add: put_nowait_def)
    also have "\<dots> = ((\<lambda>x. if x \<in> set qs \<and> \<not> full (?h x)
                  then (?h x)\<lparr>items := items (?h x) @ [ev]\<rparr> else ?h x),
                  dead @ filter (\<lambda>x. full (?h x)) qs)"
      by (rule Cons.IH [OF d])
    also have "\<dots> = ((\<lambda>x. if x \<in> set (q # qs) \<and> \<not> full (h x)
                  then (h x)\<lparr>items := items (h x) @ [ev]\<rparr> else h x),
                  dead @ filter (\<lambda>x. full (h x)) (q # qs))"
      unfolding g f using False by simp
    finally show ?thesis .
  qed
qed

lemma fold_discard: "fold discard dead ls = filter (\<lambda>q. q \<notin> set dead) ls"
proof (induction dead arbitrary: ls)
  case Nil
  then show ?case by simp
next
  case (Cons d dead)
  have "removeAll d ls = filter (\<lambda>q. q \<noteq> d) ls" by (induction ls) auto
  then show ?case using Cons by (auto simp: discard_def intro: filter_cong)
qed

lemma broadcast_listeners:
  assumes "distinct (listeners st)"
  shows "listeners (broadcast st ev) = filter (\<lambda>q. \<not> full (heap st q)) (listeners st)"
  by (auto simp: broadcast_def deliver_char [OF assms] fold_discard intro: filter_cong)

lemma broadcast_heap:
  assumes "distinct (listeners st)"
  shows "heap (broadcast st ev) q =
           (if q \<in> set (listeners st) \<and> \<not> full (heap st q)
            then (heap st q)\<lparr>items := items (heap st q) @ [ev]\<rparr> else heap st q)"
  by (simp add: broadcast_def deliver_char [OF assms])

lemma broadcast_rest [simp]:
  "next_id (broadcast st ev) = next_id st" "wire (broadcast st ev) = wire st"
  "phase (broadcast st ev) = phase st"
  by (simp_all add: broadcast_def split: prod.splits)

section \<open>Sequences of actions\<close>

lemma wf_distinct: "wf st \<Longrightarrow> distinct (listeners st)"
  by (simp add: wf_def)

lemma wf_bound: "wf st \<Longrightarrow> q \<in> set (listeners st) \<Longrightarrow> q < next_id st"
  by (simp add: wf_def list_all_iff)

lemma wf_broadcast: "wf st \<Longrightarrow> wf (broadcast st ev)"
  by (simp add: wf_def broadcast_listeners list_all_iff)

lemma sse_stream_simps [simp]:
  "listeners (snd (sse_stream st)) = add (next_id st) (listeners st)"
  "heap (snd (sse_stream st)) = (heap st)(next_id st := Queue 1000)"
  "next_id (snd (sse_stream st)) = Suc (next_id st)"
  "wire (snd (sse_stream st)) = wire st"
  "phase (snd (sse_stream st)) = (phase st)(next_id st := Created)"
  "fst (sse_stream st) = next_id st"
  by (simp_all add: sse_stream_def Let_def)

lemma set_add [simp]: "set (add q ls) = insert q (set ls)"
  by (auto simp: add_def)

lemma set_discard [simp]: "set (discard q ls) = set ls - {q}"
  by (auto simp: discard_def)

lemma wf_sse_stream: "wf st \<Longrightarrow> wf (snd (sse_stream st))"
  by (auto simp: wf_def list_all_iff add_def)

lemma gen_next_simps [simp]:
  "listeners (gen_next q st) = listeners st" "next_id (gen_next q st) = next_id st"
  by (simp_all add: gen_next_def split: option.splits prod.splits phase.splits)

lemma gen_next_other:
  "q' \<noteq> q \<Longrightarrow> heap (gen_next q' st) q = heap st q \<and> wire (gen_next q' st) q = wire st q \<and>
     phase (gen_next q' st) q = phase st q"
  by (simp add: gen_next_def split: option.splits prod.splits phase.splits)

lemma gen_next_alive: "phase st q \<noteq> Done \<Longrightarrow> phase (gen_next q' st) q \<noteq> Done"
  by (auto simp: gen_next_def split: option.splits prod.splits phase.splits if_splits)

lemma gen_next_same:
  "maxsize (heap (gen_next q st) q) = maxsize (heap st q) \<and>
   wire (gen_next q st) q @ items (heap (gen_next q st) q) = wire st q @ items (heap st q) \<and>
   length (items (heap (gen_next q st) q)) \<le> length (items (heap st q))"
  by (cases "items (heap st q)") (simp_all add: gen_next_def get_def split: phase.splits)

lemma gen_close_simps [simp]:
  "next_id (gen_close q st) = next_id st"
  "heap (gen_close q st) = heap st" "wire (gen_close q st) = wire st"
  by (simp_all add: gen_close_def split: phase.splits)

lemma gen_close_listeners:
  "listeners (gen_close q st) =
     (if phase st q = Yielded then discard q (listeners st) else listeners st)"
  by (simp add: gen_close_def split: phase.splits)

lemma gen_close_other: "q' \<noteq> q \<Longrightarrow> phase (gen_close q' st) q = phase st q"
  by (simp add: gen_close_def split: phase.splits)

lemma wf_step: "wf st \<Longrightarrow> wf (step st a)"
proof (cases a)
  case (Publish ev)
  then show "wf st \<Longrightarrow> wf (step st a)" by (simp add: wf_broadcast)
next
  case Open
  then show "wf st \<Longrightarrow> wf (step st a)" by (simp add: wf_sse_stream)
next
  case (Next q)
  then show "wf st \<Longrightarrow> wf (step st a)" by (simp add: wf_def)
next
  case (Close q)
  then show "wf st \<Longrightarrow> wf (step st a)"
    by (simp add: wf_def list_all_iff discard_def distinct_removeAll gen_close_listeners)
qed

lemma run_Nil [simp]: "run st [] = st"
  by (simp add: run_def)

lemma run_Cons [simp]: "run st (a # acts) = run (step st a) acts"
  by (simp add: run_def)

lemma wf_run: "wf st \<Longrightarrow> wf (run st acts)"
  by (induction acts arbitrary: st) (simp_all add: wf_step)

text \<open>What one action does to a registered queue that has room.\<close>

lemma step_registered:
  assumes w: "wf st" and r: "q \<in> set (listeners st)" and c: "a \<noteq> Close q"
    and room: "\<forall>ev. a = Publish ev \<longrightarrow> \<not> full (heap st q)"
  shows "q \<in> set (listeners (step st a)) \<and>
         maxsize (heap (step st a) q) = maxsize (heap st q) \<and>
         wire (step st a) q @ items (heap (step st a) q) =
           wire st q @ items (heap st q) @ published [a] \<and>
         length (items (heap (step st a) q)) \<le> length (items (heap st q)) + length (published [a])"
proof (cases a)
  case (Publish ev)
  with room have "\<not> full (heap st q)" by simp
  with Publish r show ?thesis
    by (simp add: broadcast_listeners [OF wf_distinct [OF w]] broadcast_heap [OF wf_distinct [OF w]])
next
  case Open
  have "q \<noteq> next_id st" using wf_bound [OF w r] by simp
  with Open r show ?thesis by simp
next
  case (Next q')
  show ?thesis
  proof (cases "q' = q")
    case True
    with Next r gen_next_same [of q st] show ?thesis by simp
  next
    case False
    with Next r show ?thesis by (simp add: gen_next_other)
  qed
next
  case (Close q')
  with c r show ?thesis by (simp add: gen_close_listeners)
qed

lemma step_alive:
  assumes "wf st" "q \<in> set (listeners st)" "a \<noteq> Close q" "phase st q \<noteq> Done"
  shows "phase (step st a) q \<noteq> Done"
proof (cases a)
  case (Publish ev)
  with assms show ?thesis by simp
next
  case Open
  have "q \<noteq> next_id st" using wf_bound [OF assms(1,2)] by simp
  with Open assms show ?thesis by simp
next
  case (Next q')
  with assms gen_next_alive [of st q q'] show ?thesis by simp
next
  case (Close q')
  with assms show ?thesis by (simp add: gen_close_other)
qed

lemma published_append_one: "published (a # acts) = published [a] @ published acts"
  by (cases a) simp_all

lemma run_in_order:
  assumes "wf st" "q \<in> set (listeners st)" "Close q \<notin> set acts"
    and "maxsize (heap st q) \<le> 0 \<or>
         int (length (items (heap st q)) + length (published acts)) \<le> maxsize (heap st q)"
  shows "q \<in> set (listeners (run st acts)) \<and>
         maxsize (heap (run st acts) q) = maxsize (heap st q) \<and>
         wire (run st acts) q @ items (heap (run st acts) q) =
           wire st q @ items (heap st q) @ published acts \<and>
         length (items (heap (run st acts) q)) \<le>
           length (items (heap st q)) + length (published acts)"
  using assms
proof (induction acts arbitrary: st)
  case Nil
  then show ?case by simp
next
  case (Cons a acts)
  have c: "a \<noteq> Close q" using Cons.prems(3) by auto
  have room: "\<forall>ev. a = Publish ev \<longrightarrow> \<not> full (heap st q)"
    using Cons.prems(4) by (auto simp: full_def)
  note s = step_registered [OF Cons.prems(1,2) c room]
  have len: "maxsize (heap (step st a) q) \<le> 0 \<or>
         int (length (items (heap (step st a) q)) + length (published acts)) \<le> maxsize (heap (step st a) q)"
    using s Cons.prems(4) published_append_one [of a acts] by auto
  have "Close q \<notin> set acts" using Cons.prems(3) by simp
  from Cons.IH [OF wf_step [OF Cons.prems(1)] _ this len] s
  show ?case using published_append_one [of a acts] by simp
qed


lemma run_alive:
  assumes "wf st" "q \<in> set (listeners st)" "Close q \<notin> set acts" "phase st q \<noteq> Done"
    and "maxsize (heap st q) \<le> 0 \<or>
         int (length (items (heap st q)) + length (published acts)) \<le> maxsize (heap st q)"
  shows "phase (run st acts) q \<noteq> Done"
  using assms
proof (induction acts arbitrary: st)
  case Nil
  then show ?case by simp
next
  case (Cons a acts)
  have c: "a \<noteq> Close q" "Close q \<notin> set acts" using Cons.prems(3) by auto
  have room: "\<forall>ev. a = Publish ev \<longrightarrow> \<not> full (heap st q)"
    using Cons.prems(5) by (auto simp: full_def)
  note s = step_registered [OF Cons.prems(1,2) c(1) room]
  have len: "maxsize (heap (step st a) q) \<le> 0 \<or>
         int (length (items (heap (step st a) q)) + length (published acts)) \<le> maxsize (heap (step st a) q)"
    using s Cons.prems(5) published_append_one [of a acts] by auto
  have al: "phase (step st a) q \<noteq> Done" using Cons.prems(1,2) c(1) Cons.prems(4) by (rule step_alive)
  from Cons.IH [OF wf_step [OF Cons.prems(1)] _ c(2) al len] s show ?case by simp
qed

text \<open>Resuming the generator of a queue again and again empties the queue onto the wire.\<close>

lemma drain_started:
  assumes "phase st q \<noteq> Done" "phase st q \<noteq> Created" "length (items (heap st q)) \<le> k"
  shows "wire (run st (replicate k (Next q))) q = wire st q @ items (heap st q) \<and>
         items (heap (run st (replicate k (Next q))) q) = []"
  using assms
proof (induction k arbitrary: st)
  case 0
  then show ?case by simp
next
  case (Suc k)
  show ?case
  proof (cases "items (heap st q)")
    case Nil
    have g: "wire (gen_next q st) q = wire st q" "items (heap (gen_next q st) q) = []"
      "phase (gen_next q st) q \<noteq> Done" "phase (gen_next q st) q \<noteq> Created"
      using Nil Suc.prems(1,2) by (auto simp: gen_next_def get_def split: phase.splits)
    from Suc.IH [of "gen_next q st"] g Nil show ?thesis by simp
  next
    case (Cons ev evs)
    have g: "wire (gen_next q st) q = wire st q @ [ev]" "items (heap (gen_next q st) q) = evs"
      "phase (gen_next q st) q \<noteq> Done" "phase (gen_next q st) q \<noteq> Created"
      using Cons Suc.prems(1,2) by (auto simp: gen_next_def get_def split: phase.splits)
    from Suc.IH [of "gen_next q st"] g Cons Suc.prems(3) show ?thesis by simp
  qed
qed

lemma drain:
  assumes "phase st q \<noteq> Done" "length (items (heap st q)) < k"
  shows "wire (run st (replicate k (Next q))) q = wire st q @ items (heap st q) \<and>
         items (heap (run st (replicate k (Next q))) q) = []"
proof (cases k)
  case 0
  with assms show ?thesis by simp
next
  case (Suc j)
  show ?thesis
  proof (cases "phase st q = Created")
    case True
    let ?s = "gen_next q st"
    have g: "wire ?s q = wire st q" "heap ?s q = heap st q" "phase ?s q = Opening"
      using True by (simp_all add: gen_next_def)
    have "wire (run ?s (replicate j (Next q))) q = wire ?s q @ items (heap ?s q) \<and>
         items (heap (run ?s (replicate j (Next q))) q) = []"
      using g assms(2) Suc by (intro drain_started) simp_all
    then show ?thesis using g Suc by simp
  next
    case False
    then show ?thesis using assms by (intro drain_started) simp_all
  qed
qed

lemma run_append: "run st (acts @ acts') = run (run st acts) acts'"
  by (simp add: run_def)

lemma step_unregistered:
  assumes "wf st" "q < next_id st" "q \<notin> set (listeners st)" "a \<noteq> Next q"
  shows "q \<notin> set (listeners (step st a)) \<and> heap (step st a) q = heap st q \<and>
         q < next_id (step st a)"
proof (cases a)
  case (Publish ev)
  with assms show ?thesis
    by (simp add: broadcast_listeners [OF wf_distinct] broadcast_heap [OF wf_distinct])
next
  case Open
  with assms show ?thesis by simp
next
  case (Next q')
  with assms show ?thesis by (simp add: gen_next_other)
next
  case (Close q')
  with assms show ?thesis by (simp add: gen_close_listeners)
qed

lemma run_unregistered:
  assumes "wf st" "q < next_id st" "q \<notin> set (listeners st)" "Next q \<notin> set acts"
  shows "heap (run st acts) q = heap st q"
  using assms
proof (induction acts arbitrary: st)
  case Nil
  then show ?case by simp
next
  case (Cons a acts)
  have n: "a \<noteq> Next q" "Next q \<notin> set acts" using Cons.prems(4) by auto
  note s = step_unregistered [OF Cons.prems(1-3) n(1)]
  from Cons.IH [OF wf_step [OF Cons.prems(1)] _ _ n(2), of a] s show ?case by simp
qed

lemma run_no_consumption:
  assumes "wf st" "q \<in> set (listeners st)" "Next q \<notin> set acts" "Close q \<notin> set acts"
    and "0 < maxsize (heap st q)" "int (length (items (heap st q))) \<le> maxsize (heap st q)"
  shows "items (heap (run st acts) q) =
           take (nat (maxsize (heap st q))) (items (heap st q) @ published acts)"
  using assms
proof (induction acts arbitrary: st)
  case Nil
  then show ?case by simp
next
  case (Cons a acts)
  have n: "a \<noteq> Next q" "Next q \<notin> set acts" "a \<noteq> Close q" "Close q \<notin> set acts"
    using Cons.prems(3,4) by auto
  note w = wf_step [OF Cons.prems(1), of a]
  show ?case
  proof (cases "\<exists>ev. a = Publish ev \<and> full (heap st q)")
    case True
    then obtain ev where a: "a = Publish ev" and f: "full (heap st q)" by blast
    have d: "distinct (listeners st)" using Cons.prems(1) by (rule wf_distinct)
    have u: "q \<notin> set (listeners (step st a))" using f by (simp add: a broadcast_listeners [OF d])
    have h: "heap (step st a) q = heap st q" using f by (simp add: a broadcast_heap [OF d])
    have b: "q < next_id (step st a)" using wf_bound [OF Cons.prems(1,2)] by (simp add: a)
    have "heap (run (step st a) acts) q = heap st q"
      using run_unregistered [OF w b u n(2)] h by simp
    moreover have "length (items (heap st q)) = nat (maxsize (heap st q))"
      using f Cons.prems(6) by (simp add: full_def)
    ultimately show ?thesis by simp
  next
    case False
    then have room: "\<forall>ev. a = Publish ev \<longrightarrow> \<not> full (heap st q)" by blast
    note s = step_registered [OF Cons.prems(1,2) n(3) room]
    have l: "int (length (items (heap (step st a) q))) \<le> maxsize (heap (step st a) q)"
    proof (cases a)
      case (Publish ev)
      with room have "\<not> full (heap st q)" by simp
      then show ?thesis using s Cons.prems(5) by (simp add: Publish full_def)
    next
      case Open
      then show ?thesis using s Cons.prems(6) by simp
    next
      case (Next q')
      then show ?thesis using s Cons.prems(6) by simp
    next
      case (Close q')
      then show ?thesis using s Cons.prems(6) by simp
    qed
    have p: "0 < maxsize (heap (step st a) q)" using s Cons.prems(5) by simp
    have i: "items (heap (step st a) q) = items (heap st q) @ published [a]"
    proof (cases a)
      case (Next q')
      with n(1) have "q' \<noteq> q" by simp
      then show ?thesis by (simp add: Next gen_next_other)
    next
      case (Publish ev)
      with room have "\<not> full (heap st q)" by simp
      then show ?thesis using Cons.prems(2)
        by (simp add: Publish broadcast_heap [OF wf_distinct [OF Cons.prems(1)]])
    next
      case Open
      have "q \<noteq> next_id st" using wf_bound [OF Cons.prems(1,2)] by simp
      then show ?thesis by (simp add: Open)
    next
      case (Close q')
      then show ?thesis by simp
    qed
    from Cons.IH [OF w _ n(2) n(4) p l] s i
    show ?thesis using published_append_one [of a acts] by simp
  qed
qed

lemma published_replicate [simp]: "published (replicate n (Publish ev)) = replicate n ev"
  by (induction n) simp_all

section \<open>The threads and the lock\<close>

lemma set_thread_simps [simp]:
  "shared (set_thread c t th) = shared c" "lock (set_thread c t th) = lock c"
  "threads (set_thread c t th) = (threads c)[t := th]"
  by (simp_all add: set_thread_def)

lemma start_owner_only: "start c \<Longrightarrow> owner_only c"
  by (auto simp: start_def owner_only_def list_all_length)

lemma tstep_owner_only:
  assumes "owner_only c" "tstep c t = Some c'"
  shows "owner_only c'"
proof -
  from assms(2) have t: "t < length (threads c)" by (auto simp: tstep_def split: if_splits)
  have own: "inside (threads c ! t) \<longrightarrow> lock c = Some t"
    using assms(1) t by (simp add: owner_only_def)
  show ?thesis
  proof (cases "threads c ! t")
    case Idle
    with assms t own show ?thesis by (simp add: tstep_def)
  next
    case (BcastEnter ev)
    with assms t own show ?thesis
      by (auto simp: tstep_def owner_only_def nth_list_update split: option.splits if_splits)
  next
    case (BcastLoop ev qs dead)
    with assms t own show ?thesis
      by (cases qs) (auto simp: tstep_def owner_only_def nth_list_update split: option.splits sum.splits if_splits)
  next
    case (BcastDiscard ds)
    with assms t own show ?thesis
      by (cases ds) (auto simp: tstep_def owner_only_def nth_list_update split: option.splits if_splits)
  next
    case (RegEnter q)
    with assms t own show ?thesis
      by (auto simp: tstep_def owner_only_def nth_list_update split: option.splits if_splits)
  next
    case (RegLocked q)
    with assms t own show ?thesis
      by (auto simp: tstep_def owner_only_def nth_list_update split: option.splits if_splits)
  next
    case (DeregEnter q)
    with assms t own show ?thesis
      by (auto simp: tstep_def owner_only_def nth_list_update split: option.splits if_splits)
  next
    case (DeregLocked q)
    with assms t own show ?thesis
      by (auto simp: tstep_def owner_only_def nth_list_update split: option.splits if_splits)
  qed
qed

lemma sched_owner_only: "owner_only c \<Longrightarrow> sched c ts = Some c' \<Longrightarrow> owner_only c'"
proof (induction ts arbitrary: c)
  case Nil
  then show ?case by simp
next
  case (Cons t ts)
  then show ?case by (auto split: option.splits dest: tstep_owner_only)
qed

lemma holder_moves:
  assumes "owner_only c" "lock c = Some t"
  shows "t < length (threads c) \<and> inside (threads c ! t) \<and> tstep c t \<noteq> None"
proof -
  from assms have t: "t < length (threads c)" and i: "inside (threads c ! t)"
    by (auto simp: owner_only_def)
  from i t have "tstep c t \<noteq> None"
    by (cases "threads c ! t")
       (auto simp: tstep_def split: list.splits sum.splits)
  with t i show ?thesis by simp
qed

lemma others_wait:
  assumes "owner_only c" "lock c = Some t" "u \<noteq> t"
  shows "tstep c u = None"
proof (cases "u < length (threads c)")
  case False
  then show ?thesis by (simp add: tstep_def)
next
  case True
  with assms have "\<not> inside (threads c ! u)" by (auto simp: owner_only_def)
  with True assms(2) show ?thesis
    by (cases "threads c ! u") (auto simp: tstep_def)
qed

lemma sched_append:
  "sched c (ts @ us) = (case sched c ts of None \<Rightarrow> None | Some c' \<Rightarrow> sched c' us)"
  by (induction ts arbitrary: c) (auto split: option.splits)

lemma set_thread_same: "t < length (threads c) \<Longrightarrow> threads c ! t = th \<Longrightarrow> set_thread c t th = c"
proof -
  assume "t < length (threads c)" "threads c ! t = th"
  then have "(threads c)[t := th] = threads c" by (simp add: list_update_same_conv)
  then show ?thesis by (simp add: set_thread_def)
qed

lemma sched_loop:
  assumes "t < length (threads c)" "threads c ! t = BcastLoop ev qs dead"
  shows "sched c (replicate (length qs) t) =
           Some (set_thread
                   (c\<lparr>shared := (shared c)\<lparr>heap := fst (deliver ev qs (heap (shared c)) dead)\<rparr>\<rparr>) t
                   (BcastLoop ev [] (snd (deliver ev qs (heap (shared c)) dead))))"
  using assms
proof (induction qs arbitrary: c dead)
  case Nil
  then show ?case by (simp add: set_thread_same)
next
  case (Cons q qs)
  show ?case
  proof (cases "put_nowait (heap (shared c) q) ev")
    case (Inl e)
    let ?c = "set_thread c t (BcastLoop ev qs (dead @ [q]))"
    have s: "tstep c t = Some ?c" using Cons.prems Inl by (simp add: tstep_def)
    have "sched ?c (replicate (length qs) t) =
           Some (set_thread
                   (?c\<lparr>shared := (shared ?c)\<lparr>heap := fst (deliver ev qs (heap (shared ?c)) (dead @ [q]))\<rparr>\<rparr>) t
                   (BcastLoop ev [] (snd (deliver ev qs (heap (shared ?c)) (dead @ [q])))))"
      using Cons.prems by (intro Cons.IH) simp_all
    then show ?thesis using s Inl by (simp add: set_thread_def)
  next
    case (Inr q')
    let ?c = "set_thread (c\<lparr>shared := (shared c)\<lparr>heap := (heap (shared c))(q := q')\<rparr>\<rparr>) t
                (BcastLoop ev qs dead)"
    have s: "tstep c t = Some ?c" using Cons.prems Inr by (simp add: tstep_def)
    have "sched ?c (replicate (length qs) t) =
           Some (set_thread
                   (?c\<lparr>shared := (shared ?c)\<lparr>heap := fst (deliver ev qs (heap (shared ?c)) dead)\<rparr>\<rparr>) t
                   (BcastLoop ev [] (snd (deliver ev qs (heap (shared ?c)) dead))))"
      using Cons.prems by (intro Cons.IH) simp_all
    then show ?thesis using s Inr by (simp add: set_thread_def)
  qed
qed

lemma sched_discard:
  assumes "t < length (threads c)" "threads c ! t = BcastDiscard ds"
  shows "sched c (replicate (length ds) t) =
           Some (set_thread
                   (c\<lparr>shared := (shared c)\<lparr>listeners := fold discard ds (listeners (shared c))\<rparr>\<rparr>) t
                   (BcastDiscard []))"
  using assms
proof (induction ds arbitrary: c)
  case Nil
  then show ?case by (simp add: set_thread_same)
next
  case (Cons d ds)
  let ?c = "set_thread (c\<lparr>shared := (shared c)\<lparr>listeners := discard d (listeners (shared c))\<rparr>\<rparr>) t
              (BcastDiscard ds)"
  have s: "tstep c t = Some ?c" using Cons.prems by (simp add: tstep_def)
  have "sched ?c (replicate (length ds) t) =
           Some (set_thread
                   (?c\<lparr>shared := (shared ?c)\<lparr>listeners := fold discard ds (listeners (shared ?c))\<rparr>\<rparr>) t
                   (BcastDiscard []))"
    using Cons.prems by (intro Cons.IH) simp_all
  then show ?case using s by (simp add: set_thread_def)
qed

lemma sched_broadcast:
  assumes "lock c = None" "t < length (threads c)" "threads c ! t = BcastEnter ev"
  shows "sched c (replicate (length (listeners (shared c)) +
                    length (snd (deliver ev (listeners (shared c)) (heap (shared c)) [])) + 3) t) =
           Some (set_thread (c\<lparr>shared := broadcast (shared c) ev\<rparr>) t Idle)"
proof -
  let ?ls = "listeners (shared c)"
  let ?h = "fst (deliver ev ?ls (heap (shared c)) [])"
  let ?dead = "snd (deliver ev ?ls (heap (shared c)) [])"
  let ?c1 = "set_thread (c\<lparr>lock := Some t\<rparr>) t (BcastLoop ev ?ls [])"
  let ?c2 = "set_thread (?c1\<lparr>shared := (shared ?c1)\<lparr>heap := ?h\<rparr>\<rparr>) t (BcastLoop ev [] ?dead)"
  let ?c3 = "set_thread ?c2 t (BcastDiscard ?dead)"
  let ?c4 = "set_thread (?c3\<lparr>shared := (shared ?c3)\<lparr>listeners := fold discard ?dead (listeners (shared ?c3))\<rparr>\<rparr>) t (BcastDiscard [])"
  let ?c5 = "set_thread (?c4\<lparr>lock := None\<rparr>) t Idle"
  have e: "length ?ls + length ?dead + 3 = 1 + (length ?ls + (1 + (length ?dead + 1)))" by simp
  have o: "replicate 1 t = [t]" by simp
  have n: "replicate (length ?ls + length ?dead + 3) t =
      [t] @ replicate (length ?ls) t @ [t] @ replicate (length ?dead) t @ [t]"
    unfolding o [symmetric] by (simp only: e replicate_add)
  have s1: "sched c [t] = Some ?c1" using assms by (simp add: tstep_def)
  have s2: "sched ?c1 (replicate (length ?ls) t) = Some ?c2"
    using sched_loop [of t ?c1 ev ?ls "[]"] assms(2) by simp
  have s3: "sched ?c2 [t] = Some ?c3" using assms(2) by (simp add: tstep_def)
  have s4: "sched ?c3 (replicate (length ?dead) t) = Some ?c4"
    using sched_discard [of t ?c3 ?dead] assms(2) by simp
  have s5: "sched ?c4 [t] = Some ?c5" using assms(2) by (simp add: tstep_def)
  have "sched c (replicate (length ?ls + length ?dead + 3) t) = Some ?c5"
    unfolding n by (simp only: sched_append s1 s2 s3 s4 s5 option.case)
  moreover have "?c5 = set_thread (c\<lparr>shared := broadcast (shared c) ev\<rparr>) t Idle"
    using assms(1) by (simp add: set_thread_def broadcast_def split: prod.splits)
  ultimately show ?thesis by simp
qed

lemma sched_register:
  assumes "lock c = None" "t < length (threads c)" "threads c ! t = RegEnter q"
  shows "sched c [t, t] =
           Some (set_thread (c\<lparr>shared := (shared c)\<lparr>listeners := add q (listeners (shared c))\<rparr>\<rparr>) t Idle)"
  using assms by (simp add: tstep_def set_thread_def)

lemma sched_deregister:
  assumes "lock c = None" "t < length (threads c)" "threads c ! t = DeregEnter q"
  shows "sched c [t, t] =
           Some (set_thread (c\<lparr>shared := (shared c)\<lparr>listeners := discard q (listeners (shared c))\<rparr>\<rparr>) t Idle)"
  using assms by (simp add: tstep_def set_thread_def)

section \<open>Requests that post a status change\<close>

lemma run_posts_Nil [simp]: "run_posts today_of p [] = p"
  by (simp add: run_posts_def)

lemma run_posts_Cons [simp]:
  "run_posts today_of p (a # acts) = run_posts today_of (post_step today_of p a) acts"
  by (simp add: run_posts_def)

lemma post_write_seq: "post_write today_of c db data = (res, db', Some ev) \<Longrightarrow> seq ev = c"
  by (auto simp: post_write_def Let_def split: option.splits if_splits)

lemma distinct_broadcast: "distinct (listeners st) \<Longrightarrow> distinct (listeners (broadcast st ev))"
  by (simp add: broadcast_listeners)

lemma sorted_snoc_seq:
  assumes "sorted (map seq xs)" "list_all (\<lambda>e. seq e \<le> c) xs" "seq ev = c"
  shows "sorted (map seq (xs @ [ev]))"
  using assms by (auto simp: sorted_append list_all_iff)

text \<open>A request handled without another thread in between keeps the queue of a listener in the order of \<open>seq\<close>.\<close>

lemma post_pair_ordered:
  fixes today_of :: "int \<Rightarrow> pystr" and r :: nat and data :: post_body
  assumes d: "distinct (listeners (streams p))"
    and s: "sorted (map seq (wire (streams p) q @ items (heap (streams p) q)))"
    and b: "list_all (\<lambda>e. seq e \<le> clock p) (wire (streams p) q @ items (heap (streams p) q))"
  defines "p' \<equiv> post_step today_of (post_step today_of p (Read r data)) (Bcast r)"
  shows "distinct (listeners (streams p')) \<and>
         sorted (map seq (wire (streams p') q @ items (heap (streams p') q))) \<and>
         list_all (\<lambda>e. seq e \<le> clock p') (wire (streams p') q @ items (heap (streams p') q)) \<and>
         clock p' = clock p"
proof -
  obtain res db ev where w: "post_write today_of (clock p) (store p) data = (res, db, ev)"
    by (cases "post_write today_of (clock p) (store p) data") auto
  show ?thesis
  proof (cases ev)
    case None
    with w d s b show ?thesis by (simp add: p'_def)
  next
    case (Some e)
    have c: "seq e = clock p" using w Some by (auto dest: post_write_seq)
    have st: "streams p' = broadcast (streams p) e" "clock p' = clock p"
      using w Some by (simp_all add: p'_def)
    show ?thesis
    proof (cases "q \<in> set (listeners (streams p)) \<and> \<not> full (heap (streams p) q)")
      case True
      then have i: "items (heap (broadcast (streams p) e) q) = items (heap (streams p) q) @ [e]"
        by (simp add: broadcast_heap [OF d])
      have "sorted (map seq ((wire (streams p) q @ items (heap (streams p) q)) @ [e]))"
        using s b c by (rule sorted_snoc_seq)
      moreover have "list_all (\<lambda>e. seq e \<le> clock p)
          ((wire (streams p) q @ items (heap (streams p) q)) @ [e])"
        using b c by simp
      ultimately show ?thesis unfolding st using d by (simp add: i distinct_broadcast)
    next
      case False
      then have "heap (broadcast (streams p) e) q = heap (streams p) q"
        by (simp add: broadcast_heap [OF d])
      then show ?thesis unfolding st using d s b by (simp add: distinct_broadcast)
    qed
  qed
qed

section \<open>The loop of \<open>api_tasks\<close>\<close>

lemma error_is_ValueError: "(e :: error) = ValueError"
  by (cases e) simp

lemma project_rows_fails:
  assumes "t \<in> set rows"
    and "replace_date_part tbl (t_start t) date = Inl ValueError \<or>
         replace_date_part tbl (t_end t) date = Inl ValueError"
  shows "project_rows tbl loads nil date out rows = Inl ValueError"
  using assms
proof (induction rows arbitrary: out)
  case Nil
  then show ?case by simp
next
  case (Cons a rows)
  show ?case
  proof (cases "a = t")
    case True
    with Cons.prems(2) show ?thesis
      by (auto simp: error_is_ValueError split: sum.splits)
  next
    case False
    with Cons.prems have "t \<in> set rows" by simp
    from Cons.IH [OF this Cons.prems(2)] show ?thesis
      by (auto simp: error_is_ValueError split: sum.splits)
  qed
qed

lemma project_rows_succeeds:
  assumes "list_all (\<lambda>t. isl (replace_date_part tbl (t_start t) date) = False \<and>
                          isl (replace_date_part tbl (t_end t) date) = False) rows"
  shows "\<exists>out'. project_rows tbl loads nil date out rows = Inr out' \<and>
                 length out' = length out + length rows"
  using assms
proof (induction rows arbitrary: out)
  case Nil
  then show ?case by simp
next
  case (Cons a rows)
  then obtain s e where se: "replace_date_part tbl (t_start a) date = Inr s"
      "replace_date_part tbl (t_end a) date = Inr e"
    by (cases "replace_date_part tbl (t_start a) date"; cases "replace_date_part tbl (t_end a) date") auto
  from Cons.prems have "list_all (\<lambda>t. isl (replace_date_part tbl (t_start t) date) = False \<and>
                          isl (replace_date_part tbl (t_end t) date) = False) rows" by simp
  from Cons.IH [OF this, of "out @ [\<lparr>o_id = t_id a, o_name = t_name a, o_start = s, o_end = e,
                           o_predecessor = load_pred loads nil (t_predecessor a),
                           o_must_review = t_must_review a\<rparr>]"]
  obtain out' where o: "project_rows tbl loads nil date
      (out @ [\<lparr>o_id = t_id a, o_name = t_name a, o_start = s, o_end = e,
               o_predecessor = load_pred loads nil (t_predecessor a),
               o_must_review = t_must_review a\<rparr>]) rows = Inr out'"
    "length out' = length out + 1 + length rows" by auto
  have "project_rows tbl loads nil date out (a # rows) = Inr out'"
    using se o(1) by simp
  with o(2) show ?case by simp
qed

section \<open>The claims about the template projector\<close>

text \<open>The definitions that evaluate \<open>replace_date_part\<close> on a concrete string.\<close>

lemmas eval_defs = replace_date_part_def time_part_def str_def strip_def lstrip_def rstrip_def
  isspace_def split_space1_def strptime_HMS_def strptime_HM_def match_HMS_def match_HM_def
  then_colon_def rx_H_def rx_M_def rx_S_def two_def one_def colon_def in_range_def is_decimal_def
  to_decimal_def py_int_def mk_time_def strftime_HM_def strftime_HMS_def pad2_def

lemma example_minutes:
  "replace_date_part tbl (str ''2024-08-06 08:00'') (str ''2025-01-01'') = Inr (str ''2025-01-01 08:00'')"
  by (simp add: eval_defs)

lemma example_seconds:
  "replace_date_part tbl (str ''2024-08-06 08:00:30'') (str ''2025-01-01'') = Inr (str ''2025-01-01 08:00:30'')"
  by (simp add: eval_defs)

lemma example_zero_seconds:
  "replace_date_part tbl (str ''2024-08-06 08:00:00'') (str ''2025-01-01'') = Inr (str ''2025-01-01 08:00:00'')"
  by (simp add: eval_defs)

text \<open>
  Claim C1, as stated, takes the time of day to be what follows the first whitespace
  character. \<open>replace_date_part\<close> cuts at the first space character U+0020 only: for a
  template with a tab between date and time, what follows the first whitespace parses
  as \<open>HH:MM\<close>, yet the projection raises \<open>ValueError\<close> instead of returning the target
  date with \<open>08:00\<close>.
\<close>

theorem replace_date_part_tab_counterexample:
  "strptime_HM Map.empty (spec_time_part (str ''2024-08-06'' @ [9] @ str ''08:00'')) =
     Inr \<lparr>hour = 8, minute = 0, second = 0\<rparr> \<and>
   replace_date_part Map.empty (str ''2024-08-06'' @ [9] @ str ''08:00'') (str ''2025-01-01'') =
     Inl ValueError \<and>
   replace_date_part Map.empty (str ''2024-08-06'' @ [9] @ str ''08:00'') (str ''2025-01-01'') \<noteq>
     Inr (str ''2025-01-01 08:00'')"
  by (simp add: eval_defs spec_time_part_def)

text \<open>
  Claim C1, amended. Let the time of day of a template be what \<open>replace_date_part\<close>
  parses: the template stripped of surrounding whitespace, cut after its first space
  character U+0020 (all of it when it has no space), and stripped again. For every
  template and every target date \<open>d\<close>: if the time of day parses as \<open>HH:MM:SS\<close>, the
  projection returns \<open>d\<close>, one space, and hour, minute and second as two digits each,
  so the seconds are kept also when they are zero; if it parses as \<open>HH:MM\<close>, the
  projection returns \<open>d\<close>, one space, and hour and minute as two digits each, with no
  seconds field. Projecting \<open>2024-08-06 08:00\<close> onto \<open>2025-01-01\<close> gives
  \<open>2025-01-01 08:00\<close>, and \<open>2024-08-06 08:00:30\<close> gives \<open>2025-01-01 08:00:30\<close>.
\<close>

theorem replace_date_part_precision:
  "(strptime_HMS tbl (strip (time_part ts)) = Inr t \<longrightarrow>
      replace_date_part tbl ts d =
        Inr (d @ str '' '' @ pad2 (hour t) @ str '':'' @ pad2 (minute t) @ str '':'' @ pad2 (second t))) \<and>
   (strptime_HM tbl (strip (time_part ts)) = Inr t \<longrightarrow>
      replace_date_part tbl ts d =
        Inr (d @ str '' '' @ pad2 (hour t) @ str '':'' @ pad2 (minute t))) \<and>
   replace_date_part tbl (str ''2024-08-06 08:00'') (str ''2025-01-01'') =
     Inr (str ''2025-01-01 08:00'') \<and>
   replace_date_part tbl (str ''2024-08-06 08:00:30'') (str ''2025-01-01'') =
     Inr (str ''2025-01-01 08:00:30'') \<and>
   replace_date_part tbl (str ''2024-08-06 08:00:00'') (str ''2025-01-01'') =
     Inr (str ''2025-01-01 08:00:00'')"
proof (intro conjI impI)
  assume "strptime_HMS tbl (strip (time_part ts)) = Inr t"
  from replace_date_part_HMS [OF this, of d]
  show "replace_date_part tbl ts d =
        Inr (d @ str '' '' @ pad2 (hour t) @ str '':'' @ pad2 (minute t) @ str '':'' @ pad2 (second t))"
    by (simp add: strftime_HMS_def str_def)
next
  assume "strptime_HM tbl (strip (time_part ts)) = Inr t"
  from replace_date_part_HM [OF this, of d]
  show "replace_date_part tbl ts d =
        Inr (d @ str '' '' @ pad2 (hour t) @ str '':'' @ pad2 (minute t))"
    by (simp add: strftime_HM_def str_def)
qed (rule example_minutes example_seconds example_zero_seconds)+

text \<open>
  Claim C1, amended, at two templates: one with all-zero seconds, one with a
  one-digit hour and no seconds.
\<close>

theorem replace_date_part_precision_witness:
  "strptime_HMS Map.empty (strip (time_part (str ''2024-08-06 08:00:00''))) =
     Inr \<lparr>hour = 8, minute = 0, second = 0\<rparr> \<and>
   replace_date_part Map.empty (str ''2024-08-06 08:00:00'') (str ''2025-01-01'') =
     Inr (str ''2025-01-01 08:00:00'') \<and>
   strptime_HM Map.empty (strip (time_part (str ''2024-08-06 8:05''))) =
     Inr \<lparr>hour = 8, minute = 5, second = 0\<rparr> \<and>
   replace_date_part Map.empty (str ''2024-08-06 8:05'') (str ''2025-01-01'') =
     Inr (str ''2025-01-01 08:05'')"
proof -
  have a: "strptime_HMS Map.empty (strip (time_part (str ''2024-08-06 08:00:00''))) =
     Inr \<lparr>hour = 8, minute = 0, second = 0\<rparr>"
    by (simp add: eval_defs)
  have b: "strptime_HM Map.empty (strip (time_part (str ''2024-08-06 8:05''))) =
     Inr \<lparr>hour = 8, minute = 5, second = 0\<rparr>"
    by (simp add: eval_defs)
  show ?thesis
    using a b
      replace_date_part_precision [of Map.empty "str ''2024-08-06 08:00:00''"
        "\<lparr>hour = 8, minute = 0, second = 0\<rparr>" "str ''2025-01-01''"]
      replace_date_part_precision [of Map.empty "str ''2024-08-06 8:05''"
        "\<lparr>hour = 8, minute = 5, second = 0\<rparr>" "str ''2025-01-01''"]
    by (simp add: str_def pad2_def)
qed

text \<open>
  Claim C3, as stated, speaks of the time of day of the input, which the
  specification takes to be what follows the first whitespace character. For a
  template that begins with a space that part is the whole timestamp, which fails
  both parses, yet \<open>replace_date_part\<close>, which strips the template first, returns the
  projected timestamp. Nor is a failure confined to the call: \<open>api_tasks\<close> does not
  catch the error, and with a first task that projects and a second that does not,
  the request returns the error and not the first task.
\<close>

theorem replace_date_part_malformed_counterexample:
  "strptime_HMS Map.empty (spec_time_part (str '' 2024-08-06 08:00'')) = Inl ValueError \<and>
   strptime_HM Map.empty (spec_time_part (str '' 2024-08-06 08:00'')) = Inl ValueError \<and>
   replace_date_part Map.empty (str '' 2024-08-06 08:00'') (str ''2025-01-01'') =
     Inr (str ''2025-01-01 08:00'') \<and>
   replace_date_part Map.empty (str ''2024-08-06 09:00'') (str ''2025-01-01'') =
     Inr (str ''2025-01-01 09:00'') \<and>
   api_tasks Map.empty (\<lambda>s. Inr s) [] (str ''2025-01-01'')
     \<lparr>tasks = [\<lparr>t_id = 1, t_name = str ''T1'', t_start = str '' 2024-08-06 08:00'',
                 t_end = str ''2024-08-06 09:00'', t_predecessor = None,
                 t_must_review = [21542]\<rparr>,
               \<lparr>t_id = 2, t_name = str ''T2'', t_start = str ''2024-08-06 8h10'',
                 t_end = str ''2024-08-06 08:45'', t_predecessor = None,
                 t_must_review = [21542]\<rparr>],
      task_state = Map.empty\<rparr> None = Inl ValueError"
  by (simp add: eval_defs spec_time_part_def api_tasks_def req_date_def)

text \<open>
  Claim C3, amended. Let the time of day of a template be what \<open>replace_date_part\<close>
  parses: the template stripped of surrounding whitespace, cut after its first space
  character U+0020 (all of it when it has no space), and stripped again. When it
  fails the \<open>HH:MM:SS\<close> parse and the \<open>HH:MM\<close> parse, the call raises \<open>ValueError\<close>, the
  error of a malformed time of day; a call that returns a string has parsed the time
  of day in one of the two formats. The error ends the request that made the call:
  \<open>api_tasks\<close> returns it, and no list, as soon as the start or the end of one task
  fails to project, and returns the list of all tasks when none fails.
\<close>

theorem replace_date_part_malformed:
  "(strptime_HMS tbl (strip (time_part ts)) = Inl e1 \<and>
    strptime_HM tbl (strip (time_part ts)) = Inl e2 \<longrightarrow>
      replace_date_part tbl ts d = Inl ValueError) \<and>
   (replace_date_part tbl ts d = Inr r \<longrightarrow>
      isl (strptime_HMS tbl (strip (time_part ts))) = False \<or>
      isl (strptime_HM tbl (strip (time_part ts))) = False) \<and>
   (t \<in> set (tasks db) \<and>
    (replace_date_part tbl (t_start t) (req_date arg today) = Inl ValueError \<or>
     replace_date_part tbl (t_end t) (req_date arg today) = Inl ValueError) \<longrightarrow>
      api_tasks tbl loads nil today db arg = Inl ValueError) \<and>
   (list_all (\<lambda>t. isl (replace_date_part tbl (t_start t) (req_date arg today)) = False \<and>
                   isl (replace_date_part tbl (t_end t) (req_date arg today)) = False) (tasks db) \<longrightarrow>
      (\<exists>out. api_tasks tbl loads nil today db arg = Inr out \<and> length out = length (tasks db)))"
proof (intro conjI impI)
  assume "strptime_HMS tbl (strip (time_part ts)) = Inl e1 \<and>
    strptime_HM tbl (strip (time_part ts)) = Inl e2"
  then show "replace_date_part tbl ts d = Inl ValueError"
    by (cases e1; cases e2) (simp add: replace_date_part_def)
next
  assume "replace_date_part tbl ts d = Inr r"
  from replace_date_part_cases [OF this]
  show "isl (strptime_HMS tbl (strip (time_part ts))) = False \<or>
      isl (strptime_HM tbl (strip (time_part ts))) = False"
    by auto
next
  assume a: "t \<in> set (tasks db) \<and>
    (replace_date_part tbl (t_start t) (req_date arg today) = Inl ValueError \<or>
     replace_date_part tbl (t_end t) (req_date arg today) = Inl ValueError)"
  then have "t \<in> set (sort_key t_id (tasks db))" by simp
  then show "api_tasks tbl loads nil today db arg = Inl ValueError"
    unfolding api_tasks_def using a by (intro project_rows_fails) blast+
next
  assume "list_all (\<lambda>t. isl (replace_date_part tbl (t_start t) (req_date arg today)) = False \<and>
                   isl (replace_date_part tbl (t_end t) (req_date arg today)) = False) (tasks db)"
  then have "list_all (\<lambda>t. isl (replace_date_part tbl (t_start t) (req_date arg today)) = False \<and>
                   isl (replace_date_part tbl (t_end t) (req_date arg today)) = False)
               (sort_key t_id (tasks db))"
    by (simp add: list_all_iff)
  from project_rows_succeeds [OF this, of loads nil "[]"]
  show "\<exists>out. api_tasks tbl loads nil today db arg = Inr out \<and> length out = length (tasks db)"
    by (simp add: api_tasks_def)
qed

text \<open>
  Claim C3, amended, at a template whose seconds are 60, alone and as the end of the
  second task of a timetable.
\<close>

theorem replace_date_part_malformed_witness:
  "strptime_HMS Map.empty (strip (time_part (str ''2024-08-06 08:00:60''))) = Inl ValueError \<and>
   strptime_HM Map.empty (strip (time_part (str ''2024-08-06 08:00:60''))) = Inl ValueError \<and>
   replace_date_part Map.empty (str ''2024-08-06 08:00:60'') (str ''2025-01-01'') = Inl ValueError \<and>
   api_tasks Map.empty (\<lambda>s. Inr s) [] (str ''2025-01-01'')
     \<lparr>tasks = [\<lparr>t_id = 1, t_name = str ''T1'', t_start = str ''2024-08-06 08:00'',
                 t_end = str ''2024-08-06 09:00'', t_predecessor = None,
                 t_must_review = [21542]\<rparr>,
               \<lparr>t_id = 2, t_name = str ''T2'', t_start = str ''2024-08-06 08:10'',
                 t_end = str ''2024-08-06 08:00:60'', t_predecessor = None,
                 t_must_review = [21542]\<rparr>],
      task_state = Map.empty\<rparr> None = Inl ValueError"
proof -
  let ?t2 = "\<lparr>t_id = 2, t_name = str ''T2'', t_start = str ''2024-08-06 08:10'',
                 t_end = str ''2024-08-06 08:00:60'', t_predecessor = None,
                 t_must_review = [21542]\<rparr>"
  let ?db = "\<lparr>tasks = [\<lparr>t_id = 1, t_name = str ''T1'', t_start = str ''2024-08-06 08:00'',
                 t_end = str ''2024-08-06 09:00'', t_predecessor = None,
                 t_must_review = [21542]\<rparr>, ?t2],
      task_state = Map.empty\<rparr>"
  have a: "strptime_HMS Map.empty (strip (time_part (str ''2024-08-06 08:00:60''))) = Inl ValueError"
    by (simp add: eval_defs)
  have b: "strptime_HM Map.empty (strip (time_part (str ''2024-08-06 08:00:60''))) = Inl ValueError"
    by (simp add: eval_defs)
  note m = replace_date_part_malformed [where tbl = Map.empty and ts = "str ''2024-08-06 08:00:60''"
      and ?e1.0 = ValueError and ?e2.0 = ValueError and d = "str ''2025-01-01''"
      and t = ?t2 and db = ?db and arg = None and today = "str ''2025-01-01''"
      and loads = "\<lambda>s. Inr s" and nil = "[]"]
  have c: "replace_date_part Map.empty (str ''2024-08-06 08:00:60'') (str ''2025-01-01'') = Inl ValueError"
    using m a b by blast
  have d: "?t2 \<in> set (tasks ?db)" by simp
  have e: "req_date None (str ''2025-01-01'') = str ''2025-01-01''" by (simp add: req_date_def)
  have "api_tasks Map.empty (\<lambda>s. Inr s) [] (str ''2025-01-01'') ?db None = Inl ValueError"
    using m c d unfolding e by (simp del: set_simps)
  with a b c show ?thesis by simp
qed

text \<open>
  Claim C5. For every template \<open>ts\<close> whose projection onto a date \<open>d1\<close> succeeds and
  every date \<open>d2\<close>: projecting the result onto \<open>d2\<close> gives what projecting \<open>ts\<close> onto
  \<open>d2\<close> gives. A date is written \<open>YYYY-MM-DD\<close>; all the statement needs of \<open>d1\<close> is
  that it has no space character, and of \<open>d2\<close> nothing.
\<close>

theorem reprojection:
  assumes d1: "32 \<notin> set d1" and r: "replace_date_part tbl ts d1 = Inr r"
  shows "replace_date_part tbl r d2 = replace_date_part tbl ts d2"
  using replace_date_part_cases [OF r]
proof (elim disjE exE conjE)
  fix t assume p: "strptime_HMS tbl (strip (time_part ts)) = Inr t" and r: "r = d1 @ [32] @ strftime_HMS t"
  from strptime_HMS_valid [OF p] have v: "hour t < 24" "minute t < 60" "second t < 60" by simp_all
  from strftime_HMS_clean [OF v] have c: "strftime_HMS t \<noteq> []" "\<not> isspace (hd (strftime_HMS t))"
    "\<not> isspace (last (strftime_HMS t))" "32 \<notin> set (strftime_HMS t)" by simp_all
  have tp: "time_part r = strftime_HMS t" unfolding r using d1 c by (rule time_part_projected)
  have st: "strip (time_part r) = strftime_HMS t" unfolding tp using c(1-3) by (rule strip_id)
  have "strptime_HMS tbl (strip (time_part r)) = Inr t"
    unfolding st using v by (rule strptime_HMS_strftime)
  then have "replace_date_part tbl r d2 = Inr (d2 @ [32] @ strftime_HMS t)"
    by (rule replace_date_part_HMS)
  with replace_date_part_HMS [OF p, of d2] show ?thesis by simp
next
  fix t assume p: "strptime_HM tbl (strip (time_part ts)) = Inr t" and r: "r = d1 @ [32] @ strftime_HM t"
  from strptime_HM_valid [OF p] have v: "hour t < 24" "minute t < 60" and z: "second t = 0" by simp_all
  from strftime_HM_clean [OF v] have c: "strftime_HM t \<noteq> []" "\<not> isspace (hd (strftime_HM t))"
    "\<not> isspace (last (strftime_HM t))" "32 \<notin> set (strftime_HM t)" by simp_all
  have tp: "time_part r = strftime_HM t" unfolding r using d1 c by (rule time_part_projected)
  have st: "strip (time_part r) = strftime_HM t" unfolding tp using c(1-3) by (rule strip_id)
  have "strptime_HM tbl (strip (time_part r)) = Inr \<lparr>hour = hour t, minute = minute t, second = 0\<rparr>"
    unfolding st using v by (rule strptime_HM_strftime)
  also have "\<lparr>hour = hour t, minute = minute t, second = 0\<rparr> = t" using z by simp
  finally have "replace_date_part tbl r d2 = Inr (d2 @ [32] @ strftime_HM t)"
    by (rule replace_date_part_HM)
  with replace_date_part_HM [OF p, of d2] show ?thesis by simp
qed

text \<open>Claim C5 at the template \<open>2024-08-06 08:00\<close>, projected onto 2025-01-01 and then 2026-02-03.\<close>

theorem reprojection_witness:
  "32 \<notin> set (str ''2025-01-01'') \<and>
   replace_date_part Map.empty (str ''2024-08-06 08:00'') (str ''2025-01-01'') =
     Inr (str ''2025-01-01 08:00'') \<and>
   replace_date_part Map.empty (str ''2025-01-01 08:00'') (str ''2026-02-03'') =
     replace_date_part Map.empty (str ''2024-08-06 08:00'') (str ''2026-02-03'') \<and>
   replace_date_part Map.empty (str ''2024-08-06 08:00'') (str ''2026-02-03'') =
     Inr (str ''2026-02-03 08:00'')"
proof -
  have a: "32 \<notin> set (str ''2025-01-01'')" by (simp add: str_def)
  have b: "replace_date_part Map.empty (str ''2024-08-06 08:00'') (str ''2025-01-01'') =
     Inr (str ''2025-01-01 08:00'')" by (rule example_minutes)
  have c: "replace_date_part Map.empty (str ''2024-08-06 08:00'') (str ''2026-02-03'') =
     Inr (str ''2026-02-03 08:00'')" by (simp add: eval_defs)
  from a b c reprojection [OF a b, of "str ''2026-02-03''"] show ?thesis by simp
qed

section \<open>The claims about the broadcaster\<close>

lemma stream0:
  "wf (snd (sse_stream (init :: 'e state)))"
  "0 \<in> set (listeners (snd (sse_stream (init :: 'e state))))"
  "heap (snd (sse_stream (init :: 'e state))) 0 = Queue 1000"
  "phase (snd (sse_stream (init :: 'e state))) 0 = Created"
  by (simp_all add: wf_def init_def add_def)

lemma full_after_1000:
  fixes ev :: 'e
  defines "st \<equiv> run (init :: 'e state) (Open # replicate 1000 (Publish ev))"
  shows "distinct (listeners st)" "0 \<in> set (listeners st)" "full (heap st 0)"
proof -
  let ?s = "snd (sse_stream (init :: 'e state))"
  let ?acts = "replicate 1000 (Publish ev)"
  have st: "st = run ?s ?acts" by (simp add: st_def)
  have c: "Close 0 \<notin> set ?acts" "Next 0 \<notin> set ?acts" by simp_all
  have "wf st" unfolding st using stream0(1) by (rule wf_run)
  then show "distinct (listeners st)" by (rule wf_distinct)
  have r: "0 \<in> set (listeners st) \<and> maxsize (heap st 0) = maxsize (heap ?s 0) \<and>
      wire st 0 @ items (heap st 0) = wire ?s 0 @ items (heap ?s 0) @ published ?acts"
    unfolding st using run_in_order [OF stream0(1,2) c(1)]
    by (simp add: init_def Queue_def)
  then show "0 \<in> set (listeners st)" by simp
  have "items (heap st 0) = take (nat (maxsize (heap ?s 0))) (items (heap ?s 0) @ published ?acts)"
    unfolding st using stream0(1,2) c(2,1)
    by (rule run_no_consumption) (simp_all add: init_def Queue_def)
  then have "length (items (heap st 0)) = 1000" by (simp add: init_def Queue_def)
  moreover have "maxsize (heap st 0) = 1000" using r by (simp add: init_def Queue_def)
  ultimately show "full (heap st 0)" by (simp add: full_def)
qed

text \<open>
  Claim C2, as stated, keeps a listener registered when its queue is full. In
  \<open>broadcast\<close> the exception \<open>Full\<close> of \<open>put_nowait\<close> is caught like any other and the
  queue is put on \<open>dead\<close>: after one stream is opened and 1000 events are published
  with none consumed, the listener is registered and its queue is full, and the next
  call of \<open>broadcast\<close> removes it from \<open>listeners\<close>.
\<close>

theorem broadcast_full_counterexample:
  "0 \<in> set (listeners (run init (Open # replicate 1000 (Publish (7::nat))))) \<and>
   full (heap (run init (Open # replicate 1000 (Publish (7::nat)))) 0) \<and>
   0 \<notin> set (listeners (broadcast (run init (Open # replicate 1000 (Publish (7::nat)))) 7))"
  using full_after_1000 [of "7::nat"] by (simp add: broadcast_listeners)

text \<open>
  Claim C2, amended. One call of \<open>broadcast\<close> returns normally, using only the
  non-blocking \<open>put_nowait\<close>, and for every queue \<open>q\<close>: if \<open>q\<close> is registered and not
  full, the event is appended to it and it stays registered; if \<open>q\<close> is registered and
  full, the event is dropped for it (the queue is unchanged) and \<open>q\<close> is removed from
  \<open>listeners\<close> by this same call; a queue that is not registered is untouched.
\<close>

theorem broadcast_full_deregisters:
  assumes "distinct (listeners st)"
  shows "listeners (broadcast st ev) = filter (\<lambda>q. \<not> full (heap st q)) (listeners st) \<and>
         heap (broadcast st ev) q =
           (if q \<in> set (listeners st) \<and> \<not> full (heap st q)
            then (heap st q)\<lparr>items := items (heap st q) @ [ev]\<rparr>
            else heap st q) \<and>
         next_id (broadcast st ev) = next_id st \<and> wire (broadcast st ev) = wire st"
  using broadcast_listeners [OF assms] broadcast_heap [OF assms] by simp

text \<open>Claim C2, amended, at the state with one freshly opened stream.\<close>

theorem broadcast_full_deregisters_witness:
  "distinct (listeners (snd (sse_stream (init :: nat state)))) \<and>
   listeners (broadcast (snd (sse_stream (init :: nat state))) 7) = [0] \<and>
   items (heap (broadcast (snd (sse_stream (init :: nat state))) 7) 0) = [7]"
proof -
  have d: "distinct (listeners (snd (sse_stream (init :: nat state))))"
    by (simp add: init_def add_def)
  from d broadcast_full_deregisters [OF d, of 7 0] show ?thesis
    by (simp add: init_def add_def full_def Queue_def)
qed

text \<open>
  Claim C4. Let \<open>q\<close> be a registered listener whose queue is empty and whose
  generator has not ended, and let any sequence of actions follow in which the
  stream of \<open>q\<close> is not closed: events are published, other streams are opened and
  closed, and any generator, that of \<open>q\<close> too, is resumed. If the capacity of \<open>q\<close> is
  at least the number \<open>N\<close> of published events, then \<open>q\<close> is still registered; at every
  moment what its generator has yielded followed by what is pending in its queue is
  the sequence of all \<open>N\<close> events in publish order; and once its generator has been
  resumed more than \<open>N\<close> further times, it has yielded all \<open>N\<close> events, in publish
  order, and the queue is empty. If the generator of \<open>q\<close> is not resumed, the queue
  holds the first \<open>capacity\<close> events of the publish order: all of them when \<open>N\<close> is at
  most the capacity, and else a prefix of exactly that length.
\<close>

theorem listener_receives_in_publish_order:
  assumes "wf st" and "q \<in> set (listeners st)" and "items (heap st q) = []"
    and "phase st q \<noteq> Done" and "Close q \<notin> set acts"
  shows "(int (length (published acts)) \<le> maxsize (heap st q) \<longrightarrow>
           q \<in> set (listeners (run st acts)) \<and>
           wire (run st acts) q @ items (heap (run st acts) q) = wire st q @ published acts \<and>
           (length (published acts) < k \<longrightarrow>
              wire (run st (acts @ replicate k (Next q))) q = wire st q @ published acts \<and>
              items (heap (run st (acts @ replicate k (Next q))) q) = [])) \<and>
         (0 < maxsize (heap st q) \<and> Next q \<notin> set acts \<longrightarrow>
           items (heap (run st acts) q) = take (nat (maxsize (heap st q))) (published acts))"
proof (intro conjI impI)
  assume n: "int (length (published acts)) \<le> maxsize (heap st q)"
  then have room: "maxsize (heap st q) \<le> 0 \<or>
      int (length (items (heap st q)) + length (published acts)) \<le> maxsize (heap st q)"
    by (simp add: assms(3))
  note o = run_in_order [OF assms(1,2,5) room]
  from o show "q \<in> set (listeners (run st acts))"
    and w: "wire (run st acts) q @ items (heap (run st acts) q) = wire st q @ published acts"
    by (simp_all add: assms(3))
  assume k: "length (published acts) < k"
  have alive: "phase (run st acts) q \<noteq> Done"
    using assms(1,2,5,4) room by (rule run_alive)
  have "length (items (heap (run st acts) q)) < k" using o k by (simp add: assms(3))
  with alive have "wire (run (run st acts) (replicate k (Next q))) q =
        wire (run st acts) q @ items (heap (run st acts) q) \<and>
      items (heap (run (run st acts) (replicate k (Next q))) q) = []"
    by (rule drain)
  then show "wire (run st (acts @ replicate k (Next q))) q = wire st q @ published acts"
    and "items (heap (run st (acts @ replicate k (Next q))) q) = []"
    by (simp_all add: run_append w)
next
  assume a: "0 < maxsize (heap st q) \<and> Next q \<notin> set acts"
  have "items (heap (run st acts) q) =
           take (nat (maxsize (heap st q))) (items (heap st q) @ published acts)"
    using assms(1,2) _ assms(5) by (rule run_no_consumption) (use a in \<open>simp_all add: assms(3)\<close>)
  then show "items (heap (run st acts) q) = take (nat (maxsize (heap st q))) (published acts)"
    by (simp add: assms(3))
qed

text \<open>
  Claim C4 at a stream opened by \<open>sse_stream\<close>: three events are published while its
  generator is resumed twice and a second stream is opened and closed; resumed four
  more times, the generator has yielded the three events in publish order.
\<close>

theorem listener_receives_in_publish_order_witness:
  "wf (snd (sse_stream (init :: nat state))) \<and>
   0 \<in> set (listeners (snd (sse_stream (init :: nat state)))) \<and>
   items (heap (snd (sse_stream (init :: nat state))) 0) = [] \<and>
   phase (snd (sse_stream (init :: nat state))) 0 \<noteq> Done \<and>
   Close 0 \<notin> set [Publish 5, Next 0, Open, Publish 6, Next 0, Close 1, Publish (7::nat)] \<and>
   wire (run (snd (sse_stream init))
           [Publish 5, Next 0, Open, Publish 6, Next 0, Close 1, Publish (7::nat)]) 0 = [5] \<and>
   items (heap (run (snd (sse_stream init))
           [Publish 5, Next 0, Open, Publish 6, Next 0, Close 1, Publish (7::nat)]) 0) = [6, 7] \<and>
   wire (run (snd (sse_stream init))
           ([Publish 5, Next 0, Open, Publish 6, Next 0, Close 1, Publish (7::nat)] @
            replicate 4 (Next 0))) 0 = [5, 6, 7] \<and>
   items (heap (run (snd (sse_stream init))
           ([Publish 5, Next 0, Open, Publish 6, Next 0, Close 1, Publish (7::nat)] @
            replicate 4 (Next 0))) 0) = [] \<and>
   items (heap (run (snd (sse_stream init)) [Publish 5, Open, Publish (6::nat)]) 0) = [5, 6]"
proof -
  let ?s = "snd (sse_stream (init :: nat state))"
  let ?acts = "[Publish 5, Next 0, Open, Publish 6, Next 0, Close 1, Publish (7::nat)]"
  let ?pubs = "[Publish 5, Open, Publish (6::nat)]"
  have a: "wf ?s" "0 \<in> set (listeners ?s)" by (rule stream0)+
  have b: "items (heap ?s 0) = []" by (simp add: init_def Queue_def)
  have p: "phase ?s 0 \<noteq> Done" by (simp add: init_def)
  have c: "Close 0 \<notin> set ?acts" "Close 0 \<notin> set ?pubs" by simp_all
  have w: "wire ?s 0 = []" by (simp add: init_def)
  have m: "maxsize (heap ?s 0) = 1000" by (simp add: init_def Queue_def)
  have x: "wire (run ?s ?acts) 0 = [5]"
    by (simp add: init_def Queue_def gen_next_def gen_close_def get_def add_def
          broadcast_def put_nowait_def full_def discard_def)
  from a b p c(1) listener_receives_in_publish_order [OF a b p c(1), where k = 4]
    listener_receives_in_publish_order [OF a b p c(2), where k = 0] w m x
  show ?thesis by simp
qed

text \<open>
  Claim C9, as stated, has the lock released before the first \<open>put_nowait\<close>, so that a
  registration never waits for a delivery. With one registered listener, a thread
  that has entered \<open>broadcast\<close> holds the lock when it is about to call \<open>put_nowait\<close>,
  and a thread that wants to register a new listener cannot move.
\<close>

theorem broadcast_lock_counterexample:
  "start \<lparr>shared = snd (sse_stream init), lock = None, threads = [BcastEnter (7::nat), RegEnter 1]\<rparr> \<and>
   map_option (\<lambda>c. (threads c ! 0, lock c, tstep c 1))
     (sched \<lparr>shared = snd (sse_stream init), lock = None,
              threads = [BcastEnter (7::nat), RegEnter 1]\<rparr> [0]) =
     Some (BcastLoop 7 [0] [], Some 0, None) \<and>
   delivering (BcastLoop (7::nat) [0] [])"
  by (simp add: start_def tstep_def set_thread_def init_def add_def)

text \<open>
  Claim C9, amended. In every state that the threads reach from a start, whatever
  the schedule: a thread inside a \<open>with lst_lock\<close> block, in particular a thread of
  \<open>broadcast\<close> at any \<open>put_nowait\<close> or at any removal of a dead listener, holds the
  lock; the thread that holds the lock can always take its next step, so nothing
  under the lock blocks; and every other thread waits, so a registration or a
  deregistration that arrives during a publish call waits until that call releases
  the lock. A publish call that runs from a free lock takes the lock, copies
  \<open>listeners\<close>, makes one \<open>put_nowait\<close> for each listener of the copy and one removal
  for each dead listener, and releases the lock: that many steps and three more, and
  the shared state is then what \<open>broadcast\<close> returns. A registration and a
  deregistration that run from a free lock take two steps, the listener being added
  to \<open>listeners\<close> or removed from it under the lock.
\<close>

theorem broadcast_holds_lock:
  assumes "start c0" and "sched c0 ts = Some c"
  shows "(t < length (threads c) \<and> inside (threads c ! t) \<longrightarrow> lock c = Some t) \<and>
         (lock c = Some t \<longrightarrow>
            t < length (threads c) \<and> inside (threads c ! t) \<and> tstep c t \<noteq> None) \<and>
         (lock c = Some t \<and> u \<noteq> t \<longrightarrow> tstep c u = None) \<and>
         (lock c = None \<and> t < length (threads c) \<and> threads c ! t = BcastEnter ev \<longrightarrow>
            sched c (replicate (length (listeners (shared c)) +
                       length (snd (deliver ev (listeners (shared c)) (heap (shared c)) [])) + 3) t) =
              Some (set_thread (c\<lparr>shared := broadcast (shared c) ev\<rparr>) t Idle)) \<and>
         (lock c = None \<and> t < length (threads c) \<and> threads c ! t = RegEnter q \<longrightarrow>
            sched c [t, t] =
              Some (set_thread
                      (c\<lparr>shared := (shared c)\<lparr>listeners := add q (listeners (shared c))\<rparr>\<rparr>) t Idle)) \<and>
         (lock c = None \<and> t < length (threads c) \<and> threads c ! t = DeregEnter q \<longrightarrow>
            sched c [t, t] =
              Some (set_thread
                      (c\<lparr>shared := (shared c)\<lparr>listeners := discard q (listeners (shared c))\<rparr>\<rparr>) t Idle))"
proof -
  have o: "owner_only c"
    using start_owner_only [OF assms(1)] assms(2) by (rule sched_owner_only)
  have "t < length (threads c) \<and> inside (threads c ! t) \<longrightarrow> lock c = Some t"
    using o by (auto simp: owner_only_def)
  moreover have "lock c = Some t \<longrightarrow>
            t < length (threads c) \<and> inside (threads c ! t) \<and> tstep c t \<noteq> None"
    using holder_moves [OF o] by blast
  moreover have "lock c = Some t \<and> u \<noteq> t \<longrightarrow> tstep c u = None"
    using others_wait [OF o] by blast
  moreover have "lock c = None \<and> t < length (threads c) \<and> threads c ! t = BcastEnter ev \<longrightarrow>
            sched c (replicate (length (listeners (shared c)) +
                       length (snd (deliver ev (listeners (shared c)) (heap (shared c)) [])) + 3) t) =
              Some (set_thread (c\<lparr>shared := broadcast (shared c) ev\<rparr>) t Idle)"
    using sched_broadcast [of c t ev] by blast
  moreover have "lock c = None \<and> t < length (threads c) \<and> threads c ! t = RegEnter q \<longrightarrow>
            sched c [t, t] =
              Some (set_thread
                      (c\<lparr>shared := (shared c)\<lparr>listeners := add q (listeners (shared c))\<rparr>\<rparr>) t Idle)"
    using sched_register [of c t q] by blast
  moreover have "lock c = None \<and> t < length (threads c) \<and> threads c ! t = DeregEnter q \<longrightarrow>
            sched c [t, t] =
              Some (set_thread
                      (c\<lparr>shared := (shared c)\<lparr>listeners := discard q (listeners (shared c))\<rparr>\<rparr>) t Idle)"
    using sched_deregister [of c t q] by blast
  ultimately show ?thesis by blast
qed

text \<open>
  Claim C9, amended, with one registered listener, a thread that publishes and a
  thread that registers: after the first step of the publisher; and the publish call
  run to its end from the start.
\<close>

theorem broadcast_holds_lock_witness:
  "start \<lparr>shared = snd (sse_stream init), lock = None, threads = [BcastEnter (7::nat), RegEnter 1]\<rparr> \<and>
   sched \<lparr>shared = snd (sse_stream init), lock = None, threads = [BcastEnter (7::nat), RegEnter 1]\<rparr> [0] =
     Some \<lparr>shared = snd (sse_stream init), lock = Some 0, threads = [BcastLoop 7 [0] [], RegEnter 1]\<rparr> \<and>
   tstep \<lparr>shared = snd (sse_stream init), lock = Some 0,
          threads = [BcastLoop (7::nat) [0] [], RegEnter 1]\<rparr> 0 \<noteq> None \<and>
   tstep \<lparr>shared = snd (sse_stream init), lock = Some 0,
          threads = [BcastLoop (7::nat) [0] [], RegEnter 1]\<rparr> 1 = None \<and>
   sched \<lparr>shared = snd (sse_stream init), lock = None, threads = [BcastEnter (7::nat), RegEnter 1]\<rparr>
     [0, 0, 0, 0] =
     Some \<lparr>shared = broadcast (snd (sse_stream init)) 7, lock = None, threads = [Idle, RegEnter 1]\<rparr>"
proof -
  let ?c0 = "\<lparr>shared = snd (sse_stream init), lock = None, threads = [BcastEnter (7::nat), RegEnter 1]\<rparr>"
  let ?c1 = "\<lparr>shared = snd (sse_stream init), lock = Some 0, threads = [BcastLoop (7::nat) [0] [], RegEnter 1]\<rparr>"
  have a: "start ?c0" by (simp add: start_def)
  have b: "sched ?c0 [0] = Some ?c1" by (simp add: tstep_def set_thread_def init_def add_def)
  have e: "sched ?c0 [] = Some ?c0" by simp
  have d: "snd (deliver (7::nat) (listeners (shared ?c0)) (heap (shared ?c0)) []) = []"
    by (simp add: init_def add_def put_nowait_def full_def Queue_def)
  have l: "length (listeners (shared ?c0)) = 1" by (simp add: init_def add_def)
  from broadcast_holds_lock [OF a b, where t = 0 and u = 1 and ev = 7]
    broadcast_holds_lock [OF a e, where t = 0 and u = 0 and ev = 7] a b d l
  show ?thesis by (simp add: set_thread_def numeral_eq_Suc del: sched.simps)
qed

section \<open>The claim about the sequence numbers\<close>

text \<open>
  Claim C8, as stated, has \<open>seq\<close> non-decreasing in publish order for all events of a
  process. A request reads the clock before it calls \<open>broadcast\<close>, and the server
  runs the requests in threads: when a second request reads the clock a millisecond
  later and publishes first, the listener finds 1001 before 1000 in its queue.
\<close>

theorem seq_order_counterexample:
  "map seq (items (heap (streams
     (run_posts (\<lambda>c. str ''2025-01-01'')
        \<lparr>streams = snd (sse_stream init),
         store = \<lparr>tasks = [\<lparr>t_id = 3, t_name = str ''T3'', t_start = str ''2024-08-06 08:15'',
                            t_end = str ''2024-08-06 08:55'', t_predecessor = Some (str ''[]''),
                            t_must_review = [26159]\<rparr>],
                  task_state = Map.empty\<rparr>,
         clock = 1000, built = (\<lambda>r. None)\<rparr>
        [Read 0 \<lparr>b_date = None, b_task_id = Some 3, b_completed = True, b_reviewed = False\<rparr>,
         Tick 1,
         Read 1 \<lparr>b_date = None, b_task_id = Some 3, b_completed = True, b_reviewed = True\<rparr>,
         Bcast 1, Bcast 0])) 0)) = [1001, 1000] \<and>
   \<not> sorted [1001, 1000 :: int]"
  by (simp add: post_write_def req_date_def init_def add_def broadcast_def put_nowait_def
        full_def Queue_def Let_def)

text \<open>
  Claim C8, amended. When the requests are handled one after the other, each
  publishing its event before the next reads the clock, and the clock never goes
  back, every listener receives the events with \<open>seq\<close> non-decreasing in publish
  order, ties permitted: if what a listener has been sent so far is in the order of
  \<open>seq\<close> and not ahead of the clock, it is still in the order of \<open>seq\<close> after any such
  sequence of requests.
\<close>

theorem seq_order_sequential:
  assumes "sequential acts" and "distinct (listeners (streams p))"
    and "sorted (map seq (wire (streams p) q @ items (heap (streams p) q)))"
    and "list_all (\<lambda>e. seq e \<le> clock p) (wire (streams p) q @ items (heap (streams p) q))"
  shows "sorted (map seq (wire (streams (run_posts today_of p acts)) q @
                          items (heap (streams (run_posts today_of p acts)) q)))"
  using assms
proof (induction acts arbitrary: p rule: sequential.induct)
  case 1
  then show ?case by simp
next
  case (2 d acts)
  have "list_all (\<lambda>e. seq e \<le> clock p + d) (wire (streams p) q @ items (heap (streams p) q))"
    unfolding list_all_iff
  proof (intro ballI)
    fix e assume "e \<in> set (wire (streams p) q @ items (heap (streams p) q))"
    with "2.prems"(4) have "seq e \<le> clock p" by (simp add: list_all_iff)
    with "2.prems"(1) show "seq e \<le> clock p + d" by simp
  qed
  with "2.IH" [of "p\<lparr>clock := clock p + d\<rparr>"] "2.prems" show ?case by simp
next
  case (3 r data r' acts)
  then have r: "r' = r" and sa: "sequential acts" by simp_all
  define p2 where "p2 = post_step today_of (post_step today_of p (Read r data)) (Bcast r)"
  have run: "run_posts today_of p (Read r data # Bcast r' # acts) = run_posts today_of p2 acts"
    by (simp only: run_posts_Cons p2_def r)
  note pp = post_pair_ordered [OF "3.prems"(2,3,4), where today_of = today_of and r = r
      and data = data, folded p2_def]
  have "list_all (\<lambda>e. seq e \<le> clock p2) (wire (streams p2) q @ items (heap (streams p2) q))"
    using pp by blast
  with pp have "sorted (map seq (wire (streams (run_posts today_of p2 acts)) q @
                          items (heap (streams (run_posts today_of p2 acts)) q)))"
    by (intro "3.IH" [OF sa]) blast+
  then show ?case by (simp only: run)
qed simp_all

text \<open>
  Claim C8, amended, at the two requests of the counterexample, now handled one
  after the other, the second in the same millisecond as the first and a third one a
  millisecond later.
\<close>

theorem seq_order_sequential_witness:
  "sequential
     [Read 0 \<lparr>b_date = None, b_task_id = Some 3, b_completed = True, b_reviewed = False\<rparr>, Bcast 0,
      Read 1 \<lparr>b_date = None, b_task_id = Some 3, b_completed = True, b_reviewed = True\<rparr>, Bcast 1,
      Tick 1,
      Read 0 \<lparr>b_date = None, b_task_id = Some 3, b_completed = False, b_reviewed = False\<rparr>, Bcast 0] \<and>
   map seq (items (heap (streams
     (run_posts (\<lambda>c. str ''2025-01-01'')
        \<lparr>streams = snd (sse_stream init),
         store = \<lparr>tasks = [\<lparr>t_id = 3, t_name = str ''T3'', t_start = str ''2024-08-06 08:15'',
                            t_end = str ''2024-08-06 08:55'', t_predecessor = Some (str ''[]''),
                            t_must_review = [26159]\<rparr>],
                  task_state = Map.empty\<rparr>,
         clock = 1000, built = (\<lambda>r. None)\<rparr>
        [Read 0 \<lparr>b_date = None, b_task_id = Some 3, b_completed = True, b_reviewed = False\<rparr>, Bcast 0,
         Read 1 \<lparr>b_date = None, b_task_id = Some 3, b_completed = True, b_reviewed = True\<rparr>, Bcast 1,
         Tick 1,
         Read 0 \<lparr>b_date = None, b_task_id = Some 3, b_completed = False, b_reviewed = False\<rparr>, Bcast 0]))
     0)) = [1000, 1000, 1001] \<and>
   sorted [1000, 1000, 1001 :: int]"
proof -
  let ?p = "\<lparr>streams = snd (sse_stream init),
         store = \<lparr>tasks = [\<lparr>t_id = 3, t_name = str ''T3'', t_start = str ''2024-08-06 08:15'',
                            t_end = str ''2024-08-06 08:55'', t_predecessor = Some (str ''[]''),
                            t_must_review = [26159]\<rparr>],
                  task_state = Map.empty\<rparr>,
         clock = 1000, built = (\<lambda>r. None)\<rparr>"
  let ?acts = "[Read 0 \<lparr>b_date = None, b_task_id = Some 3, b_completed = True, b_reviewed = False\<rparr>, Bcast 0,
      Read 1 \<lparr>b_date = None, b_task_id = Some 3, b_completed = True, b_reviewed = True\<rparr>, Bcast 1,
      Tick 1,
      Read 0 \<lparr>b_date = None, b_task_id = Some 3, b_completed = False, b_reviewed = False\<rparr>, Bcast 0]"
  have a: "sequential ?acts" by simp
  have b: "distinct (listeners (streams ?p))" by (simp add: init_def add_def)
  have c: "wire (streams ?p) 0 @ items (heap (streams ?p) 0) = []"
    by (simp add: init_def Queue_def)
  have d: "sorted (map seq (wire (streams ?p) 0 @ items (heap (streams ?p) 0)))"
    unfolding c by simp
  have e: "list_all (\<lambda>e. seq e \<le> clock ?p) (wire (streams ?p) 0 @ items (heap (streams ?p) 0))"
    unfolding c by simp
  have w: "wire (streams (run_posts (\<lambda>c. str ''2025-01-01'') ?p ?acts)) 0 = []"
    by (simp add: post_write_def req_date_def init_def add_def broadcast_def put_nowait_def
        full_def Queue_def Let_def)
  have i: "map seq (items (heap (streams (run_posts (\<lambda>c. str ''2025-01-01'') ?p ?acts)) 0)) =
      [1000, 1000, 1001]"
    by (simp add: post_write_def req_date_def init_def add_def broadcast_def put_nowait_def
        full_def Queue_def Let_def)
  from a i seq_order_sequential [OF a b d e, of "\<lambda>c. str ''2025-01-01''"] show ?thesis
    by (simp add: w)
qed

section \<open>The claims about the status read and the flag\<close>

text \<open>
  Claim C7. \<open>mr_truth\<close> is true exactly when the stripped and lower-cased input is one
  of the five accepted spellings. \<open>TRUE\<close>, \<open>1\<close> and \<open>Yes\<close> are true; the empty string,
  \<open>0\<close> and \<open>no\<close> are false. The ideographs U+662F and U+5426 are not ASCII, so their
  lower case comes from the Unicode database; it leaves both unchanged, and then the
  first is true and the second is false.
\<close>

theorem mr_truth_values:
  "(mr_truth ulower v \<longleftrightarrow>
      lower ulower (strip v) \<in> {[26159], str ''true'', str ''1'', str ''y'', str ''yes''}) \<and>
   mr_truth ulower (str ''TRUE'') \<and> mr_truth ulower (str ''1'') \<and> mr_truth ulower (str ''Yes'') \<and>
   \<not> mr_truth ulower (str '''') \<and> \<not> mr_truth ulower (str ''0'') \<and> \<not> mr_truth ulower (str ''no'') \<and>
   (ulower [26159] = [26159] \<longrightarrow> mr_truth ulower [26159]) \<and>
   (ulower [21542] = [21542] \<longrightarrow> \<not> mr_truth ulower [21542])"
proof -
  have g: "mr_truth ulower v \<longleftrightarrow>
      lower ulower (strip v) \<in> {[26159], str ''true'', str ''1'', str ''y'', str ''yes''}"
    by (simp add: mr_truth_def truthy_def)
  have a: "mr_truth ulower (str ''TRUE'')" "mr_truth ulower (str ''1'')" "mr_truth ulower (str ''Yes'')"
    "\<not> mr_truth ulower (str '''')" "\<not> mr_truth ulower (str ''0'')" "\<not> mr_truth ulower (str ''no'')"
    by (simp_all add: mr_truth_def truthy_def strip_def lstrip_def rstrip_def isspace_def
          lower_def ascii_lower_def str_def)
  have s: "strip [26159] = [26159]" "strip [21542] = [21542]"
    by (simp_all add: strip_def lstrip_def rstrip_def isspace_def)
  have y: "ulower [26159] = [26159] \<longrightarrow> mr_truth ulower [26159]"
    by (simp add: mr_truth_def truthy_def s lower_def)
  have n: "ulower [21542] = [21542] \<longrightarrow> \<not> mr_truth ulower [21542]"
    by (simp add: mr_truth_def truthy_def s lower_def str_def)
  from g a y n show ?thesis by blast
qed

text \<open>Claim C7 with a lower-casing that changes nothing outside ASCII.\<close>

theorem mr_truth_values_witness:
  "id [26159] = [26159::nat] \<and> id [21542] = [21542::nat] \<and>
   mr_truth id [26159] \<and> \<not> mr_truth id [21542]"
  using mr_truth_values [of id "[]"] by simp

lemma mk_list_select_state:
  "mk_list (select_state db d) =
     map (\<lambda>t. \<lparr>item_id = t_id t, item_name = t_name t, mustReview = t_must_review t,
                 completed = (coalesce (map_option fst (task_state db (d, t_id t))) 0 \<noteq> 0),
                 reviewed = (coalesce (map_option snd (task_state db (d, t_id t))) 0 \<noteq> 0)\<rparr>)
         (sort_key t_id (tasks db))"
  by (simp add: mk_list_def select_state_def Let_def)

lemma api_state_get_fields:
  "r_list (api_state_get ulower today db arg) = mk_list (select_state db (req_date arg today))"
  "r_date (api_state_get ulower today db arg) = req_date arg today"
  "r_stats (api_state_get ulower today db arg) =
     mk_stats ulower (mk_list (select_state db (req_date arg today)))"
  by (simp_all add: api_state_get_def Let_def)



lemma count_partition:
  "sum_list [1::nat. x \<leftarrow> lst, completed x \<and> reviewed x] +
   sum_list [1. x \<leftarrow> lst, completed x \<and> \<not> reviewed x] +
   sum_list [1. x \<leftarrow> lst, \<not> completed x] = length lst"
  by (induction lst) auto

text \<open>
  Claim C10. In every response of \<open>api_state_get\<close>, \<open>doneReviewed\<close>,
  \<open>doneUnreviewed\<close> and \<open>undone\<close> add up to \<open>total\<close>, and \<open>total\<close> is the length of
  the returned list, which has one entry for each row of the table \<open>tasks\<close>.
\<close>

theorem api_state_get_stats_partition:
  "doneReviewed (r_stats (api_state_get ulower today db arg)) +
   doneUnreviewed (r_stats (api_state_get ulower today db arg)) +
   undone (r_stats (api_state_get ulower today db arg)) =
     stats.total (r_stats (api_state_get ulower today db arg)) \<and>
   stats.total (r_stats (api_state_get ulower today db arg)) =
     length (r_list (api_state_get ulower today db arg)) \<and>
   length (r_list (api_state_get ulower today db arg)) = length (tasks db)"
proof -
  let ?lst = "r_list (api_state_get ulower today db arg)"
  have s: "r_stats (api_state_get ulower today db arg) = mk_stats ulower ?lst"
    by (simp add: api_state_get_def Let_def)
  have "doneReviewed (mk_stats ulower ?lst) + doneUnreviewed (mk_stats ulower ?lst) +
        undone (mk_stats ulower ?lst) = stats.total (mk_stats ulower ?lst)"
    unfolding mk_stats_def using count_partition [of ?lst] by simp
  moreover have "stats.total (mk_stats ulower ?lst) = length ?lst"
    by (simp add: mk_stats_def)
  moreover have "length ?lst = length (tasks db)"
    by (simp add: api_state_get_fields mk_list_select_state)
  ultimately show ?thesis unfolding s by blast
qed

end
